theory Spec2Isabelle
  imports Main "HOL-Library.Sublist"
begin

section \<open>Python strings as lists of code points\<close>

text \<open>
  A Python \<open>str\<close> is a sequence of Unicode code points. The sanitizer removes
  pictographs far outside ASCII, so a string is modelled as a list of code points
  (natural numbers); \<open>asc\<close> embeds an ASCII literal of the source.
\<close>

type_synonym ustr = "nat list"

definition asc :: "string \<Rightarrow> ustr" where
  "asc s = map of_char s"

abbreviation NL :: nat where "NL \<equiv> 10"
abbreviation STAR :: nat where "STAR \<equiv> 42"
abbreviation HASH :: nat where "HASH \<equiv> 35"

text \<open>
  \<open>str.isspace\<close> of one code point; the same table decides \<open>\s\<close> in a \<open>str\<close>
  pattern and what \<open>str.strip()\<close> removes.
\<close>

definition is_space :: "nat \<Rightarrow> bool" where
  "is_space c \<longleftrightarrow>
     (9 \<le> c \<and> c \<le> 13) \<or> (28 \<le> c \<and> c \<le> 32) \<or> c = 0x85 \<or> c = 0xA0 \<or> c = 0x1680 \<or>
     (0x2000 \<le> c \<and> c \<le> 0x200A) \<or> c = 0x2028 \<or> c = 0x2029 \<or> c = 0x202F \<or>
     c = 0x205F \<or> c = 0x3000"

definition lstrip :: "ustr \<Rightarrow> ustr" where
  "lstrip s = dropWhile is_space s"

definition rstrip :: "ustr \<Rightarrow> ustr" where
  "rstrip s = rev (dropWhile is_space (rev s))"

text \<open>\<open>s.strip()\<close>\<close>

definition strip :: "ustr \<Rightarrow> ustr" where
  "strip s = rstrip (lstrip s)"

text \<open>\<open>s.startswith(p)\<close>\<close>

definition startswith :: "ustr \<Rightarrow> ustr \<Rightarrow> bool" where
  "startswith s p = prefix p s"

text \<open>\<open>n in s\<close> for strings: \<open>n\<close> occurs in \<open>s\<close> as a contiguous run.\<close>

fun contains :: "ustr \<Rightarrow> ustr \<Rightarrow> bool" where
  "contains n [] = (n = [])"
| "contains n (c # cs) = (prefix n (c # cs) \<or> contains n cs)"

text \<open>\<open>s.split(d)\<close> for a one-character separator: always at least one piece.\<close>

fun split_on :: "nat \<Rightarrow> ustr \<Rightarrow> ustr list" where
  "split_on d [] = [[]]"
| "split_on d (c # cs) =
     (if c = d then [] # split_on d cs
      else (case split_on d cs of
              [] \<Rightarrow> [[c]]
            | l # ls \<Rightarrow> (c # l) # ls))"

text \<open>
  \<open>s.replace(old, '')\<close>: the occurrences of \<open>old\<close> are found from the left, without
  overlap, and dropped. With an empty \<open>old\<close> and an empty replacement Python returns
  \<open>s\<close> as it is.
\<close>

function remove_all :: "ustr \<Rightarrow> ustr \<Rightarrow> ustr" where
  "remove_all old [] = []"
| "remove_all old (c # cs) =
     (if old \<noteq> [] \<and> prefix old (c # cs)
      then remove_all old (drop (length old) (c # cs))
      else c # remove_all old cs)"
  by pat_completeness auto
termination
  by (relation "measure (\<lambda>(old, s). length s)") (auto simp: Suc_le_eq)

text \<open>
  \<open>s.lower()\<close>. On a string of ASCII code points it maps \<open>A-Z\<close> to \<open>a-z\<close>. Beyond
  ASCII the mapping belongs to the Unicode tables of the Python runtime (it is not even
  letter by letter: a final sigma depends on its context); that part is the parameter
  \<open>lo\<close>.
\<close>

definition ascii_lower :: "nat \<Rightarrow> nat" where
  "ascii_lower c = (if 65 \<le> c \<and> c \<le> 90 then c + 32 else c)"

definition py_lower :: "(ustr \<Rightarrow> ustr) \<Rightarrow> ustr \<Rightarrow> ustr" where
  "py_lower lo s = (if list_all (\<lambda>c. c < 128) s then map ascii_lower s else lo s)"

text \<open>
  \<open>\w\<close> in a \<open>str\<close> pattern: \<open>[a-zA-Z0-9_]\<close> on ASCII; beyond ASCII the
  alphanumeric table of the runtime's Unicode database, the parameter \<open>uw\<close>.
\<close>

definition ascii_letter :: "nat \<Rightarrow> bool" where
  "ascii_letter c \<longleftrightarrow> (65 \<le> c \<and> c \<le> 90) \<or> (97 \<le> c \<and> c \<le> 122)"

definition ascii_digit :: "nat \<Rightarrow> bool" where
  "ascii_digit c \<longleftrightarrow> 48 \<le> c \<and> c \<le> 57"

definition py_word :: "(nat \<Rightarrow> bool) \<Rightarrow> nat \<Rightarrow> bool" where
  "py_word uw c = (if c < 128 then ascii_letter c \<or> ascii_digit c \<or> c = 95 else uw c)"

section \<open>The prompt builder (\<open>_create_blog_prompt\<close>)\<close>

text \<open>\<open>length_guidelines.get(length, "400-600 words")\<close>\<close>

definition length_guidelines_get :: "ustr \<Rightarrow> ustr" where
  "length_guidelines_get post_length =
     (if post_length = asc ''short'' then asc ''150-300 words''
      else if post_length = asc ''medium'' then asc ''400-600 words''
      else if post_length = asc ''long'' then asc ''700-1000 words''
      else asc ''400-600 words'')"

text \<open>The f-string of the source, line by line.\<close>

definition create_blog_prompt :: "ustr \<Rightarrow> ustr \<Rightarrow> ustr \<Rightarrow> ustr \<Rightarrow> bool \<Rightarrow> bool \<Rightarrow> ustr" where
  "create_blog_prompt topic tone post_length target_audience include_hashtags include_call_to_action =
     asc ''\<newline>''
     @ asc ''        Create a professional LinkedIn blog post with the following specifications:\<newline>''
     @ asc ''\<newline>''
     @ asc ''        Topic: ''
     @ topic
     @ asc ''\<newline>''
     @ asc ''        Tone: ''
     @ tone
     @ asc ''\<newline>''
     @ asc ''        Length: ''
     @ length_guidelines_get post_length
     @ asc ''\<newline>''
     @ asc ''        Target Audience: ''
     @ target_audience
     @ asc ''\<newline>''
     @ asc ''\<newline>''
     @ asc ''        IMPORTANT FORMATTING GUIDELINES:\<newline>''
     @ asc ''        - Use clean, professional text WITHOUT asterisks (*) for emphasis\<newline>''
     @ asc ''        - DO NOT use emojis in the main content\<newline>''
     @ asc ''        - Use proper paragraphs with clear line breaks\<newline>''
     @ asc ''        - Write in a conversational yet professional style\<newline>''
     @ asc ''        - Focus on valuable insights and actionable advice\<newline>''
     @ asc ''        - Avoid excessive formatting symbols or decorative elements\<newline>''
     @ asc ''        - Keep the ''
     @ tone
     @ asc '' tone throughout\<newline>''
     @ asc ''\<newline>''
     @ asc ''        CONTENT REQUIREMENTS:\<newline>''
     @ asc ''        1. Create an engaging, professional title (no emojis)\<newline>''
     @ asc ''        2. Write a compelling opening paragraph\<newline>''
     @ asc ''        3. Include 2-3 main points with practical insights\<newline>''
     @ asc ''        4. Use clear, readable formatting with proper paragraphs\<newline>''
     @ asc ''        5. Make it valuable and shareable for ''
     @ target_audience
     @ asc ''\<newline>''
     @ asc ''        \<newline>''
     @ asc ''        ''
     @ (if include_hashtags
        then asc ''6. Include 5-8 relevant hashtags (hashtags only, no decorative elements)''
        else [])
     @ asc ''\<newline>''
     @ asc ''        ''
     @ (if include_call_to_action
        then asc ''7. End with a professional call-to-action that encourages meaningful engagement''
        else [])
     @ asc ''\<newline>''
     @ asc ''\<newline>''
     @ asc ''        FORMAT YOUR RESPONSE EXACTLY AS FOLLOWS:\<newline>''
     @ asc ''        TITLE: [Clean professional title here]\<newline>''
     @ asc ''        \<newline>''
     @ asc ''        CONTENT: [Main blog post content in clear paragraphs, no asterisks or emojis]\<newline>''
     @ asc ''        \<newline>''
     @ asc ''        ''
     @ (if include_hashtags then asc ''HASHTAGS: [Only hashtags, separated by spaces]'' else [])
     @ asc ''\<newline>''
     @ asc ''        \<newline>''
     @ asc ''        ''
     @ (if include_call_to_action then asc ''CALL_TO_ACTION: [Professional call to action]'' else [])
     @ asc ''\<newline>''
     @ asc ''\<newline>''
     @ asc ''        Remember: Focus on professional, clean content that provides real value without unnecessary formatting.\<newline>''
     @ asc ''        ''"

section \<open>The content sanitizer (\<open>_clean_content\<close>)\<close>

record blog_data =
  title :: ustr
  content :: ustr
  hashtags :: ustr
  call_to_action :: ustr
  full_post :: ustr

text \<open>
  The character class of decorative symbols removed from the title, the hashtags and the
  call to action (the star of the source is followed by a variation selector, U+FE0F,
  which is therefore a member of the class).
\<close>

definition decor_symbols :: "nat list" where
  "decor_symbols =
     [0x1F3AF, 0x1F4DD, 0x1F4A1, 0x1F680, 0x2728, 0x1F525, 0x1F4AA, 0x1F31F,
      0x1F4C8, 0x2B50, 0xFE0F, 0x1F3AA, 0x1F3AD, 0x1F3A8, 0x1F3AC, 0x1F3A4,
      0x1F3BC, 0x1F3B5, 0x1F3B6, 0x1F3B8, 0x1F3BA, 0x1F3BB, 0x1F973, 0x1F91D,
      0x1F44D, 0x1F4AF]"

text \<open>The longer class used for the content.\<close>

definition decor_symbols_content :: "nat list" where
  "decor_symbols_content =
     [0x1F3AF, 0x1F4DD, 0x1F4A1, 0x1F680, 0x2728, 0x1F525, 0x1F4AA, 0x1F31F,
      0x1F4C8, 0x2B50, 0xFE0F, 0x1F3AA, 0x1F3AD, 0x1F3A8, 0x1F3AC, 0x1F3A4,
      0x1F3BC, 0x1F3B5, 0x1F3B6, 0x1F3B8, 0x1F3BA, 0x1F3BB, 0x1F973, 0x1F91D,
      0x1F44D, 0x1F4AF, 0x1F30D, 0x1F30E, 0x1F30F, 0x1F52E, 0x1F38A, 0x1F389,
      0x1F388, 0x1F380, 0x1F381, 0x1F3C6, 0x1F947, 0x1F948, 0x1F949, 0x1F3C5,
      0x1F396, 0xFE0F, 0x1F3F5, 0xFE0F, 0x1F397, 0xFE0F]"

definition bullet_symbols :: "nat list" where
  "bullet_symbols = [0x2022, 0x25AA, 0x25AB, 0x25E6, 0x2023, 0x2043]"

text \<open>
  \<open>re.sub(r'[...]', '', s)\<close> for a class of single code points: each member is a match
  of its own and is dropped.
\<close>

definition remove_class :: "nat list \<Rightarrow> ustr \<Rightarrow> ustr" where
  "remove_class cls s = filter (\<lambda>c. c \<notin> set cls) s"

text \<open>
  \<open>re.sub(r'\*+', '', s)\<close>: scanning from the left, a match is a maximal run of
  asterisks; it is dropped and the scan goes on behind it.
\<close>

function remove_star_runs :: "ustr \<Rightarrow> ustr" where
  "remove_star_runs [] = []"
| "remove_star_runs (c # cs) =
     (if c = STAR then remove_star_runs (dropWhile (\<lambda>x. x = STAR) cs)
      else c # remove_star_runs cs)"
  by pat_completeness auto
termination
  by (relation "measure length") (auto simp: less_Suc_eq_le length_dropWhile_le)

text \<open>
  \<open>re.sub(r'\*\*([^*]+)\*\*', r'\1', s)\<close>. A match at a position needs two asterisks,
  then the maximal run of other code points (the greedy group can give nothing back:
  what follows a shorter run is not an asterisk), which must not be empty, then two
  asterisks. The match is replaced by the group and the scan goes on behind the match;
  where nothing matches, one code point is copied.
\<close>

function unwrap_bold :: "ustr \<Rightarrow> ustr" where
  "unwrap_bold [] = []"
| "unwrap_bold (c # cs) =
     (let inner = takeWhile (\<lambda>x. x \<noteq> STAR) (drop 1 cs);
          rest = dropWhile (\<lambda>x. x \<noteq> STAR) (drop 1 cs)
      in if prefix [STAR, STAR] (c # cs) \<and> inner \<noteq> [] \<and> prefix [STAR, STAR] rest
         then inner @ unwrap_bold (drop 2 rest)
         else c # unwrap_bold cs)"
  by pat_completeness auto
termination
proof (relation "measure length", goal_cases)
  case (2 c cs inner rest)
  have "length (dropWhile (\<lambda>x. x \<noteq> STAR) (drop 1 cs)) \<le> length (drop 1 cs)"
    by (rule length_dropWhile_le)
  with 2 show ?case by simp
qed auto

text \<open>\<open>re.sub(r'\*([^*]+)\*', r'\1', s)\<close>, in the same way with single asterisks.\<close>

function unwrap_italic :: "ustr \<Rightarrow> ustr" where
  "unwrap_italic [] = []"
| "unwrap_italic (c # cs) =
     (let inner = takeWhile (\<lambda>x. x \<noteq> STAR) cs;
          rest = dropWhile (\<lambda>x. x \<noteq> STAR) cs
      in if c = STAR \<and> inner \<noteq> [] \<and> prefix [STAR] rest
         then inner @ unwrap_italic (drop 1 rest)
         else c # unwrap_italic cs)"
  by pat_completeness auto
termination
proof (relation "measure length", goal_cases)
  case (2 c cs inner rest)
  have "length (dropWhile (\<lambda>x. x \<noteq> STAR) cs) \<le> length cs"
    by (rule length_dropWhile_le)
  with 2 show ?case by simp
qed auto

text \<open>
  \<open>re.sub(r'\n{3,}', '\n\n', s)\<close>: a run of three or more newlines is matched whole
  and replaced by two.
\<close>

function collapse_newlines :: "ustr \<Rightarrow> ustr" where
  "collapse_newlines [] = []"
| "collapse_newlines (c # cs) =
     (if c = NL \<and> prefix [NL, NL] cs
      then NL # NL # collapse_newlines (dropWhile (\<lambda>x. x = NL) cs)
      else c # collapse_newlines cs)"
  by pat_completeness auto
termination
  by (relation "measure length") (auto simp: less_Suc_eq_le length_dropWhile_le)

text \<open>
  \<open>re.sub(r'^[...bullets...]\s*', '', s, flags=re.MULTILINE)\<close>. The flag \<open>bol\<close> says
  that the position is the start of the text or follows a newline, where \<open>^\<close>
  matches. A match takes the bullet and all the whitespace behind it, newlines included.
\<close>

function strip_bullets :: "bool \<Rightarrow> ustr \<Rightarrow> ustr" where
  "strip_bullets bol [] = []"
| "strip_bullets bol (c # cs) =
     (if bol \<and> c \<in> set bullet_symbols
      then strip_bullets (last (c # takeWhile is_space cs) = NL) (dropWhile is_space cs)
      else c # strip_bullets (c = NL) cs)"
  by pat_completeness auto
termination
  by (relation "measure (\<lambda>(bol, s). length s)") (auto simp: less_Suc_eq_le length_dropWhile_le)

text \<open>
  \<open>re.sub(r'^[-*]\s+', '', s, flags=re.MULTILINE)\<close>: a hyphen or an asterisk at the
  start of a line, with at least one whitespace code point behind it.
\<close>

function strip_markers :: "bool \<Rightarrow> ustr \<Rightarrow> ustr" where
  "strip_markers bol [] = []"
| "strip_markers bol (c # cs) =
     (if bol \<and> (c = 45 \<or> c = STAR) \<and> takeWhile is_space cs \<noteq> []
      then strip_markers (last (takeWhile is_space cs) = NL) (dropWhile is_space cs)
      else c # strip_markers (c = NL) cs)"
  by pat_completeness auto
termination
  by (relation "measure (\<lambda>(bol, s). length s)") (auto simp: less_Suc_eq_le length_dropWhile_le)

text \<open>
  \<open>re.sub(r'(?<!\#)\b([A-Za-z][A-Za-z0-9_]*)', r'#\1', s)\<close>. \<open>prev\<close> is the code point
  before the position (\<open>None\<close> at the start). A match starts at an ASCII letter that
  is not preceded by \<open>#\<close> and stands at a word boundary: the letter is a word
  character, so the boundary is there when \<open>prev\<close> is not one. The group takes the
  maximal run of \<open>[A-Za-z0-9_]\<close>.
\<close>

definition tag_char :: "nat \<Rightarrow> bool" where
  "tag_char c \<longleftrightarrow> ascii_letter c \<or> ascii_digit c \<or> c = 95"

definition starts_tag :: "(nat \<Rightarrow> bool) \<Rightarrow> nat option \<Rightarrow> nat \<Rightarrow> bool" where
  "starts_tag uw prev c \<longleftrightarrow>
     ascii_letter c \<and> prev \<noteq> Some HASH \<and>
     (case prev of None \<Rightarrow> True | Some p \<Rightarrow> \<not> py_word uw p)"

function prefix_hashtags :: "(nat \<Rightarrow> bool) \<Rightarrow> nat option \<Rightarrow> ustr \<Rightarrow> ustr" where
  "prefix_hashtags uw prev [] = []"
| "prefix_hashtags uw prev (c # cs) =
     (if starts_tag uw prev c
      then HASH # c # takeWhile tag_char cs
             @ prefix_hashtags uw (Some (last (c # takeWhile tag_char cs))) (dropWhile tag_char cs)
      else c # prefix_hashtags uw (Some c) cs)"
  by pat_completeness auto
termination
  by (relation "measure (\<lambda>(uw, prev, s). length s)")
     (auto simp: less_Suc_eq_le length_dropWhile_le)

text \<open>The four fields; each is left alone when it is empty (\<open>if blog_data[...]:\<close>).\<close>

definition clean_title :: "ustr \<Rightarrow> ustr" where
  "clean_title t =
     (if t \<noteq> [] then strip (remove_class decor_symbols (remove_star_runs t)) else t)"

definition clean_body :: "ustr \<Rightarrow> ustr" where
  "clean_body c =
     (if c \<noteq> []
      then strip (strip_markers True (strip_bullets True (collapse_newlines
             (remove_class decor_symbols_content
               (remove_star_runs (unwrap_italic (unwrap_bold c)))))))
      else c)"

definition clean_hashtags :: "(nat \<Rightarrow> bool) \<Rightarrow> ustr \<Rightarrow> ustr" where
  "clean_hashtags uw h =
     (if h \<noteq> [] then strip (prefix_hashtags uw None (remove_class decor_symbols h)) else h)"

definition clean_cta :: "ustr \<Rightarrow> ustr" where
  "clean_cta a =
     (if a \<noteq> [] then strip (remove_star_runs (remove_class decor_symbols a)) else a)"

definition clean_content :: "(nat \<Rightarrow> bool) \<Rightarrow> blog_data \<Rightarrow> blog_data" where
  "clean_content uw bd =
     bd\<lparr>title := clean_title (title bd),
        content := clean_body (content bd),
        hashtags := clean_hashtags uw (hashtags bd),
        call_to_action := clean_cta (call_to_action bd)\<rparr>"

section \<open>The response parser (\<open>_parse_blog_response\<close>)\<close>

datatype section_name = Title | Content | Hashtags | CallToAction

fun get_section :: "section_name \<Rightarrow> blog_data \<Rightarrow> ustr" where
  "get_section Title bd = title bd"
| "get_section Content bd = content bd"
| "get_section Hashtags bd = hashtags bd"
| "get_section CallToAction bd = call_to_action bd"

fun set_section :: "section_name \<Rightarrow> ustr \<Rightarrow> blog_data \<Rightarrow> blog_data" where
  "set_section Title v bd = bd\<lparr>title := v\<rparr>"
| "set_section Content v bd = bd\<lparr>content := v\<rparr>"
| "set_section Hashtags v bd = bd\<lparr>hashtags := v\<rparr>"
| "set_section CallToAction v bd = bd\<lparr>call_to_action := v\<rparr>"

text \<open>
  One turn of the loop over the lines: the state is the section cursor
  (\<open>current_section\<close>) and the record.
\<close>

definition parse_line :: "section_name option \<times> blog_data \<Rightarrow> ustr \<Rightarrow> section_name option \<times> blog_data" where
  "parse_line st raw =
     (let line = strip raw; current_section = fst st; bd = snd st
      in if startswith line (asc ''TITLE:'')
         then (Some Title, bd\<lparr>title := strip (remove_all (asc ''TITLE:'') line)\<rparr>)
         else if startswith line (asc ''CONTENT:'')
         then (Some Content, bd\<lparr>content := strip (remove_all (asc ''CONTENT:'') line)\<rparr>)
         else if startswith line (asc ''HASHTAGS:'')
         then (Some Hashtags, bd\<lparr>hashtags := strip (remove_all (asc ''HASHTAGS:'') line)\<rparr>)
         else if startswith line (asc ''CALL_TO_ACTION:'')
         then (Some CallToAction,
               bd\<lparr>call_to_action := strip (remove_all (asc ''CALL_TO_ACTION:'') line)\<rparr>)
         else (case current_section of
                 None \<Rightarrow> (current_section, bd)
               | Some sec \<Rightarrow>
                   if line \<noteq> []
                   then (current_section,
                         set_section sec
                           (if get_section sec bd \<noteq> [] then get_section sec bd @ [NL] @ line
                            else line) bd)
                   else (current_section, bd)))"

definition parse_lines :: "ustr \<Rightarrow> blog_data" where
  "parse_lines response_text =
     snd (foldl parse_line
            (None, \<lparr>title = [], content = [], hashtags = [], call_to_action = [],
                    full_post = response_text\<rparr>)
            (split_on NL response_text))"

definition parse_blog_response :: "(nat \<Rightarrow> bool) \<Rightarrow> ustr \<Rightarrow> blog_data" where
  "parse_blog_response uw response_text = clean_content uw (parse_lines response_text)"

section \<open>The generation orchestrator (\<open>generate_blog_post\<close>)\<close>

text \<open>
  What the external call does with the prompt: it raises (the text is \<open>str\<close> of the
  exception) or it returns a response (its \<open>text\<close>).
\<close>

datatype api_outcome = Raises ustr | Responds ustr

text \<open>
  The three \<open>raise Exception(...)\<close> of the handler, each with its message; the source
  tells them apart by the message only.
\<close>

datatype gen_error = QuotaExceeded ustr | RateLimitExceeded ustr | ApiError ustr

record blog_post = blog_data +
  generated_at :: ustr
  topic :: ustr
  tone :: ustr
  post_length :: ustr

definition quota_message :: "ustr \<Rightarrow> ustr" where
  "quota_message api_error =
     [0x1F6A8] @ asc '' API Quota Exceeded!\<newline>\<newline>''
     @ asc ''Your Google AI (Gemini) free tier quota has been reached.\<newline>\<newline>''
     @ asc ''Solutions:\<newline>''
     @ asc ''1. Wait for quota reset (usually 24 hours)\<newline>''
     @ asc ''2. Upgrade to paid Google AI plan\<newline>''
     @ asc ''3. Check your API usage at https://makersuite.google.com\<newline>''
     @ asc ''4. Try again later with shorter content length\<newline>\<newline>''
     @ asc ''Original error: '' @ api_error"

definition rate_message :: "ustr \<Rightarrow> ustr" where
  "rate_message api_error =
     [0x1F6A8] @ asc '' Rate Limit Exceeded!\<newline>\<newline>''
     @ asc ''You're making requests too quickly.\<newline>\<newline>''
     @ asc ''Solutions:\<newline>''
     @ asc ''1. Wait 60 seconds before trying again\<newline>''
     @ asc ''2. Reduce frequency of blog generation\<newline>\<newline>''
     @ asc ''Original error: '' @ api_error"

text \<open>The handler \<open>except Exception as api_error\<close>.\<close>

definition classify_api_error :: "(ustr \<Rightarrow> ustr) \<Rightarrow> ustr \<Rightarrow> gen_error" where
  "classify_api_error lo api_error =
     (let error_message = py_lower lo api_error
      in if contains (asc ''quota'') error_message \<or> contains (asc ''exceeded'') error_message
            \<or> contains (asc ''limit'') error_message
         then QuotaExceeded (quota_message api_error)
         else if contains (asc ''rate'') error_message
         then RateLimitExceeded (rate_message api_error)
         else ApiError (asc ''Google AI API Error: '' @ api_error))"

text \<open>
  \<open>generate_blog_post\<close>: \<open>api\<close> is the external model (what it does with a prompt),
  \<open>now\<close> the timestamp \<open>datetime.now().isoformat()\<close>. An empty response text raises
  inside the inner \<open>try\<close>, so it goes through the same handler.
\<close>

definition generate_blog_post ::
  "(ustr \<Rightarrow> ustr) \<Rightarrow> (nat \<Rightarrow> bool) \<Rightarrow> (ustr \<Rightarrow> api_outcome) \<Rightarrow> ustr \<Rightarrow>
   ustr \<Rightarrow> ustr \<Rightarrow> ustr \<Rightarrow> ustr \<Rightarrow> bool \<Rightarrow> bool \<Rightarrow> gen_error + blog_post" where
  "generate_blog_post lo uw api now topic_arg tone_arg length_arg target_audience
       include_hashtags include_call_to_action =
     (let prompt = create_blog_prompt topic_arg tone_arg length_arg target_audience
                     include_hashtags include_call_to_action
      in case api prompt of
           Raises api_error \<Rightarrow> Inl (classify_api_error lo api_error)
         | Responds text \<Rightarrow>
             if text = []
             then Inl (classify_api_error lo (asc ''No content generated from Google AI''))
             else Inr (blog_data.extend (parse_blog_response uw text)
                         \<lparr>generated_at = now, topic = topic_arg, tone = tone_arg,
                          post_length = length_arg\<rparr>))"

section \<open>The recipient validator (\<open>validate_email\<close>)\<close>

text \<open>
  The pattern of the source is a plain regular expression (classes, concatenation,
  repetition, anchors at both ends). \<open>re.match\<close> returns a match exactly when some way of
  matching exists, so the answer is membership in the pattern's language, decided here
  by derivatives. A class is a list of inclusive ranges, as it is written in the pattern.
\<close>

datatype regex =
    Never
  | Empty
  | Class "(nat \<times> nat) list"
  | Seq regex regex
  | Alt regex regex
  | Star regex

definition in_class :: "(nat \<times> nat) list \<Rightarrow> nat \<Rightarrow> bool" where
  "in_class rs c = list_ex (\<lambda>(lo, hi). lo \<le> c \<and> c \<le> hi) rs"

fun nullable :: "regex \<Rightarrow> bool" where
  "nullable Never = False"
| "nullable Empty = True"
| "nullable (Class rs) = False"
| "nullable (Seq r s) = (nullable r \<and> nullable s)"
| "nullable (Alt r s) = (nullable r \<or> nullable s)"
| "nullable (Star r) = True"

fun deriv :: "nat \<Rightarrow> regex \<Rightarrow> regex" where
  "deriv c Never = Never"
| "deriv c Empty = Never"
| "deriv c (Class rs) = (if in_class rs c then Empty else Never)"
| "deriv c (Seq r s) =
     (if nullable r then Alt (Seq (deriv c r) s) (deriv c s) else Seq (deriv c r) s)"
| "deriv c (Alt r s) = Alt (deriv c r) (deriv c s)"
| "deriv c (Star r) = Seq (deriv c r) (Star r)"

definition fullmatch :: "regex \<Rightarrow> ustr \<Rightarrow> bool" where
  "fullmatch r s = nullable (foldl (\<lambda>r c. deriv c r) r s)"

text \<open>\<open>r+\<close> and \<open>r{2,}\<close>\<close>

definition Plus :: "regex \<Rightarrow> regex" where
  "Plus r = Seq r (Star r)"

definition AtLeast2 :: "regex \<Rightarrow> regex" where
  "AtLeast2 r = Seq r (Seq r (Star r))"

text \<open>
  \<open>$\<close> without \<open>re.MULTILINE\<close> matches at the end of the text and also just before a
  newline that is the last code point; as the last item of a pattern it stands for an
  optional final newline.
\<close>

definition Dollar :: regex where
  "Dollar = Alt Empty (Class [(NL, NL)])"

text \<open>\<open>[a-zA-Z0-9._%+-]\<close>, \<open>[a-zA-Z0-9.-]\<close> and \<open>[a-zA-Z]\<close>\<close>

definition local_class :: "(nat \<times> nat) list" where
  "local_class =
     [(97, 122), (65, 90), (48, 57), (46, 46), (95, 95), (37, 37), (43, 43), (45, 45)]"

definition domain_class :: "(nat \<times> nat) list" where
  "domain_class = [(97, 122), (65, 90), (48, 57), (46, 46), (45, 45)]"

definition alpha_class :: "(nat \<times> nat) list" where
  "alpha_class = [(97, 122), (65, 90)]"

text \<open>\<open>^[a-zA-Z0-9._%+-]+@[a-zA-Z0-9.-]+\.[a-zA-Z]{2,}$\<close>\<close>

definition email_pattern :: regex where
  "email_pattern =
     Seq (Plus (Class local_class))
       (Seq (Class [(64, 64)])
         (Seq (Plus (Class domain_class))
           (Seq (Class [(46, 46)])
             (Seq (AtLeast2 (Class alpha_class)) Dollar))))"

definition validate_email :: "ustr \<Rightarrow> bool" where
  "validate_email email = fullmatch email_pattern email"

text \<open>
  The format as the specification words it: a local part (one or more of alphanumeric,
  \<open>.\<close>, \<open>_\<close>, \<open>%\<close>, \<open>+\<close>, \<open>-\<close>), \<open>@\<close>, a domain (one or more of alphanumeric,
  \<open>.\<close>, \<open>-\<close>), a dot and an alphabetic top-level domain of two letters or more, and
  nothing else.
\<close>

definition spec_local_char :: "nat \<Rightarrow> bool" where
  "spec_local_char c \<longleftrightarrow>
     ascii_letter c \<or> ascii_digit c \<or> c = 46 \<or> c = 95 \<or> c = 37 \<or> c = 43 \<or> c = 45"

definition spec_domain_char :: "nat \<Rightarrow> bool" where
  "spec_domain_char c \<longleftrightarrow> ascii_letter c \<or> ascii_digit c \<or> c = 46 \<or> c = 45"

definition spec_email_format :: "ustr \<Rightarrow> bool" where
  "spec_email_format s \<longleftrightarrow>
     (\<exists>local dom tld.
        s = local @ [64] @ dom @ [46] @ tld \<and>
        local \<noteq> [] \<and> list_all spec_local_char local \<and>
        dom \<noteq> [] \<and> list_all spec_domain_char dom \<and>
        2 \<le> length tld \<and> list_all ascii_letter tld)"

section \<open>Batch dispatch (\<open>send_batch_with_validation\<close>)\<close>

text \<open>
  A Python \<open>dict\<close> keeps its keys in the order of their first insertion; assigning to a
  key that is present replaces the value where it stands.
\<close>

fun dict_set :: "'k \<Rightarrow> 'v \<Rightarrow> ('k \<times> 'v) list \<Rightarrow> ('k \<times> 'v) list" where
  "dict_set k v [] = [(k, v)]"
| "dict_set k v (kv # kvs) = (if fst kv = k then (k, v) # kvs else kv # dict_set k v kvs)"

definition validate_recipients :: "ustr list \<Rightarrow> (ustr \<times> bool) list" where
  "validate_recipients recipients =
     foldl (\<lambda>results email. dict_set email (validate_email email) results) [] recipients"

definition get_invalid_emails :: "ustr list \<Rightarrow> ustr list" where
  "get_invalid_emails recipients = filter (\<lambda>email. \<not> validate_email email) recipients"

text \<open>
  The bodies of the message, as \<open>_create_email_body\<close> and \<open>_create_html_body\<close>
  build them. The post is a record with every key present, as \<open>generate_blog_post\<close>
  returns it, so each \<open>get\<close> finds its key.
\<close>

definition create_email_body :: "blog_post \<Rightarrow> ustr" where
  "create_email_body post =
     asc ''\<newline>''
     @ asc ''Hello!\<newline>''
     @ asc ''\<newline>''
     @ asc ''I've generated a new LinkedIn blog post for you:\<newline>''
     @ asc ''\<newline>''
     @ asc ''TITLE: ''
     @ title post
     @ asc ''\<newline>''
     @ asc ''\<newline>''
     @ asc ''CONTENT:\<newline>''
     @ content post
     @ asc ''\<newline>''
     @ asc ''\<newline>''
     @ (if hashtags post \<noteq> []
        then asc ''\<newline>''
             @ asc ''HASHTAGS: ''
             @ hashtags post
             @ asc ''\<newline>''
        else [])
     @ (if call_to_action post \<noteq> []
        then asc ''\<newline>''
             @ asc ''CALL TO ACTION: ''
             @ call_to_action post
             @ asc ''\<newline>''
        else [])
     @ asc ''\<newline>''
     @ asc ''---\<newline>''
     @ asc ''Generated on: ''
     @ generated_at post
     @ asc ''\<newline>''
     @ asc ''Topic: ''
     @ topic post
     @ asc ''\<newline>''
     @ asc ''Tone: ''
     @ tone post
     @ asc ''\<newline>''
     @ asc ''\<newline>''
     @ asc ''Best regards,\<newline>''
     @ asc ''LinkedIn Blog Agent\<newline>''"

definition create_html_body :: "blog_post \<Rightarrow> ustr" where
  "create_html_body post =
     asc ''\<newline>''
     @ asc ''        <html>\<newline>''
     @ asc ''        <head></head>\<newline>''
     @ asc ''        <body>\<newline>''
     @ asc ''            <h2>New LinkedIn Blog Post Generated</h2>\<newline>''
     @ asc ''            \<newline>''
     @ asc ''            <h3 style=\"color: #0073b1;\">''
     @ title post
     @ asc ''</h3>\<newline>''
     @ asc ''            \<newline>''
     @ asc ''            <div style=\"margin: 20px 0; padding: 15px; background-color: #f8f9fa; border-left: 4px solid #0073b1;\">\<newline>''
     @ asc ''                <p style=\"white-space: pre-line; line-height: 1.6;\">''
     @ content post
     @ asc ''</p>\<newline>''
     @ asc ''            </div>\<newline>''
     @ asc ''        ''
     @ (if hashtags post \<noteq> []
        then asc ''\<newline>''
             @ asc ''            <div style=\"margin: 15px 0;\">\<newline>''
             @ asc ''                <strong>Hashtags:</strong> <span style=\"color: #0073b1;\">''
             @ hashtags post
             @ asc ''</span>\<newline>''
             @ asc ''            </div>\<newline>''
             @ asc ''            ''
        else [])
     @ (if call_to_action post \<noteq> []
        then asc ''\<newline>''
             @ asc ''            <div style=\"margin: 15px 0; padding: 10px; background-color: #e7f3ff; border-radius: 5px;\">\<newline>''
             @ asc ''                <strong>Call to Action:</strong> ''
             @ call_to_action post
             @ asc ''\<newline>''
             @ asc ''            </div>\<newline>''
             @ asc ''            ''
        else [])
     @ asc ''\<newline>''
     @ asc ''            <hr style=\"margin: 20px 0; border: none; border-top: 1px solid #ddd;\">\<newline>''
     @ asc ''            <small style=\"color: #666;\">\<newline>''
     @ asc ''                Generated on: ''
     @ generated_at post
     @ asc ''<br>\<newline>''
     @ asc ''                Topic: ''
     @ topic post
     @ asc ''<br>\<newline>''
     @ asc ''                Tone: ''
     @ tone post
     @ asc ''\<newline>''
     @ asc ''            </small>\<newline>''
     @ asc ''            \<newline>''
     @ asc ''            <p style=\"margin-top: 20px; color: #666;\">\<newline>''
     @ asc ''                Best regards,<br>\<newline>''
     @ asc ''                <strong>LinkedIn Blog Agent</strong>\<newline>''
     @ asc ''            </p>\<newline>''
     @ asc ''        </body>\<newline>''
     @ asc ''        </html>\<newline>''
     @ asc ''        ''"

text \<open>
  \<open>MIMEText(text, subtype)\<close> encodes a text that is not ASCII as UTF-8 and raises
  \<open>UnicodeEncodeError\<close> when the text holds a surrogate code point (U+D800 to U+DFFF);
  \<open>None\<close> is that exception.
\<close>

definition utf8_encodable :: "ustr \<Rightarrow> bool" where
  "utf8_encodable t = list_all (\<lambda>c. c < 0xD800 \<or> 0xDFFF < c) t"

definition mime_text :: "ustr \<Rightarrow> ustr option" where
  "mime_text t = (if utf8_encodable t then Some t else None)"

record email_message =
  msg_subject :: ustr
  msg_from :: ustr
  msg_to :: ustr
  msg_text :: ustr
  msg_html :: ustr

text \<open>
  The statements of the guarded block before \<open>_send_email\<close>: the headers are stored as
  they are, the two parts are built, and either part may raise.
\<close>

definition build_message :: "ustr \<Rightarrow> blog_post \<Rightarrow> ustr \<Rightarrow> ustr \<Rightarrow> email_message option" where
  "build_message sender_email post custom_subject recipient =
     (case mime_text (create_email_body post) of
        None \<Rightarrow> None
      | Some text_part \<Rightarrow>
          (case mime_text (create_html_body post) of
             None \<Rightarrow> None
           | Some html_part \<Rightarrow>
               Some \<lparr>msg_subject = custom_subject, msg_from = sender_email,
                     msg_to = recipient, msg_text = text_part, msg_html = html_part\<rparr>))"

text \<open>
  The mail transport is outside the program. \<open>smtp attempts message recipient\<close> says
  whether \<open>_send_email(message, recipient)\<close> returns (\<open>True\<close>) or raises
  (\<open>False\<close>), after the earlier calls \<open>attempts\<close>; the list of the recipients it
  was called for is the state that is passed along. For each recipient the guarded block
  builds the message and calls the transport; when either raises, the recipient is
  recorded as failed, and a message that cannot be built is never passed to the
  transport.
\<close>

definition send_to_multiple_recipients ::
  "ustr \<Rightarrow> (ustr list \<Rightarrow> email_message \<Rightarrow> ustr \<Rightarrow> bool) \<Rightarrow> ustr list \<Rightarrow> blog_post \<Rightarrow>
   ustr list \<Rightarrow> ustr \<Rightarrow> (ustr \<rightharpoonup> ustr) option \<Rightarrow> ustr list \<times> (ustr \<times> bool) list" where
  "send_to_multiple_recipients sender_email smtp attempts post recipients subject_prefix
       personalized_subjects =
     foldl (\<lambda>(att, results) recipient.
              (let custom_subject =
                     (case personalized_subjects of
                        None \<Rightarrow> subject_prefix @ asc '': '' @ title post
                      | Some subjects \<Rightarrow>
                          (case subjects recipient of
                             Some s \<Rightarrow> s
                           | None \<Rightarrow> subject_prefix @ asc '': '' @ title post))
               in case build_message sender_email post custom_subject recipient of
                    None \<Rightarrow> (att, dict_set recipient False results)
                  | Some message \<Rightarrow>
                      (att @ [recipient],
                       dict_set recipient (smtp att message recipient) results)))
           (attempts, []) recipients"

record summary =
  total_recipients :: nat
  valid_emails :: nat
  invalid_emails :: nat
  emails_sent :: nat
  emails_failed :: nat

text \<open>
  The result; \<open>error\<close> is absent unless the batch is refused, and then holds the list
  of invalid addresses that the source formats into the text.
\<close>

record batch_results =
  validation :: "(ustr \<times> bool) list"
  sending :: "(ustr \<times> bool) list"
  summary :: summary
  error :: "ustr list option"

definition send_batch_with_validation ::
  "ustr \<Rightarrow> (ustr list \<Rightarrow> email_message \<Rightarrow> ustr \<Rightarrow> bool) \<Rightarrow> ustr list \<Rightarrow> blog_post \<Rightarrow>
   ustr list \<Rightarrow> ustr \<Rightarrow> bool \<Rightarrow> batch_results \<times> ustr list" where
  "send_batch_with_validation sender_email smtp attempts post recipients subject_prefix
       skip_invalid =
     (let validation_results = validate_recipients recipients;
          valid = map fst (filter (\<lambda>(email, is_valid). is_valid) validation_results);
          invalid = map fst (filter (\<lambda>(email, is_valid). \<not> is_valid) validation_results);
          results = \<lparr>validation = validation_results, sending = [],
                     summary = \<lparr>total_recipients = length recipients,
                                 valid_emails = length valid,
                                 invalid_emails = length invalid,
                                 emails_sent = 0, emails_failed = 0\<rparr>,
                     error = None\<rparr>
      in if invalid \<noteq> [] \<and> \<not> skip_invalid
         then (results\<lparr>error := Some invalid\<rparr>, attempts)
         else if valid \<noteq> []
         then (let (attempts', sending_results) =
                     send_to_multiple_recipients sender_email smtp attempts post valid
                       subject_prefix None;
                   sent = length (filter snd sending_results)
               in (results\<lparr>sending := sending_results,
                          summary := (summary results)
                            \<lparr>emails_sent := sent,
                             emails_failed := length sending_results - sent\<rparr>\<rparr>,
                   attempts'))
         else (results, attempts))"

section \<open>Notions used to state and prove the properties\<close>

text \<open>
  The substitution of \<open>prefix_hashtags\<close> read one code point at a time: a \<open>#\<close> goes
  before each code point at which a match starts. Inside a match every code point
  follows a word character, so no match starts there, and the two readings agree
  (\<open>prefix_hashtags_marks\<close> below).
\<close>

fun hash_marks :: "(nat \<Rightarrow> bool) \<Rightarrow> nat option \<Rightarrow> ustr \<Rightarrow> ustr" where
  "hash_marks uw prev [] = []"
| "hash_marks uw prev (c # cs) =
     (if starts_tag uw prev c then HASH # c # hash_marks uw (Some c) cs
      else c # hash_marks uw (Some c) cs)"

text \<open>
  No three newlines in a row, \<open>k\<close> being the number of newlines that stand just before
  the text.
\<close>

fun no_triple_newline :: "nat \<Rightarrow> ustr \<Rightarrow> bool" where
  "no_triple_newline k [] = True"
| "no_triple_newline k (c # cs) =
     (if c = NL then k < 2 \<and> no_triple_newline (Suc k) cs else no_triple_newline 0 cs)"

text \<open>The whitespace-delimited tokens of a text (\<open>s.split()\<close>).\<close>

function tokens :: "ustr \<Rightarrow> ustr list" where
  "tokens s =
     (let r = dropWhile is_space s
      in if r = [] then []
         else takeWhile (\<lambda>c. \<not> is_space c) r # tokens (dropWhile (\<lambda>c. \<not> is_space c) r))"
  by pat_completeness auto
termination
proof (relation "measure length", goal_cases)
  case (2 s r)
  then obtain x xs where r: "dropWhile is_space s = x # xs"
    by (cases "dropWhile is_space s") auto
  then have "\<not> is_space x"
    by (metis hd_dropWhile list.sel(1) list.distinct(1))
  then have "length (dropWhile (\<lambda>c. \<not> is_space c) (x # xs)) \<le> length xs"
    by (simp add: length_dropWhile_le)
  moreover have "length (x # xs) \<le> length s"
    using r length_dropWhile_le[of is_space s] by simp
  ultimately show ?case using 2 r by simp
qed auto

text \<open>
  A synthetic response is built from lines. \<open>join_nl\<close> is \<open>'\n'.join(lines)\<close>. A line
  is labelled when, once stripped, it starts with one of the four section labels. A
  section is the body behind its label on the label's line and the unlabelled lines that
  follow; what the parser is expected to extract from it is the newline-join of its
  stripped, non-empty pieces.
\<close>

fun join_nl :: "ustr list \<Rightarrow> ustr" where
  "join_nl [] = []"
| "join_nl [x] = x"
| "join_nl (x # y # ys) = x @ [NL] @ join_nl (y # ys)"

definition labelled :: "ustr \<Rightarrow> bool" where
  "labelled l \<longleftrightarrow>
     startswith (strip l) (asc ''TITLE:'') \<or> startswith (strip l) (asc ''CONTENT:'') \<or>
     startswith (strip l) (asc ''HASHTAGS:'') \<or> startswith (strip l) (asc ''CALL_TO_ACTION:'')"

definition section_lines :: "ustr \<Rightarrow> ustr \<times> ustr list \<Rightarrow> ustr list" where
  "section_lines label sec = (label @ fst sec) # snd sec"

definition section_body :: "ustr \<times> ustr list \<Rightarrow> ustr" where
  "section_body sec = join_nl (filter (\<lambda>l. l \<noteq> []) (map strip (fst sec # snd sec)))"

definition well_formed_section :: "ustr \<Rightarrow> ustr \<times> ustr list \<Rightarrow> bool" where
  "well_formed_section label sec \<longleftrightarrow>
     \<not> contains label (fst sec) \<and> list_all (\<lambda>l. \<not> labelled l) (snd sec) \<and>
     list_all (\<lambda>l. NL \<notin> set l) (fst sec # snd sec)"

text \<open>
  The language of a pattern: what it means for a text to match it from end to end.
  \<open>fullmatch\<close> decides it (\<open>fullmatch_lang\<close> below).
\<close>

inductive_set star_lang :: "ustr set \<Rightarrow> ustr set" for A :: "ustr set" where
  star_nil: "[] \<in> star_lang A"
| star_step: "u \<in> A \<Longrightarrow> v \<in> star_lang A \<Longrightarrow> u @ v \<in> star_lang A"

fun lang :: "regex \<Rightarrow> ustr set" where
  "lang Never = {}"
| "lang Empty = {[]}"
| "lang (Class rs) = {[c] | c. in_class rs c}"
| "lang (Seq r s) = {u @ v | u v. u \<in> lang r \<and> v \<in> lang s}"
| "lang (Alt r s) = lang r \<union> lang s"
| "lang (Star r) = star_lang (lang r)"

text \<open>
  For the batch dispatcher: a post whose two bodies can be encoded, and the message that
  the loop of \<open>send_to_multiple_recipients\<close> builds for a recipient when it is given no
  personalized subjects.
\<close>

definition can_build :: "blog_post \<Rightarrow> bool" where
  "can_build post \<longleftrightarrow>
     utf8_encodable (create_email_body post) \<and> utf8_encodable (create_html_body post)"

definition message_for :: "ustr \<Rightarrow> blog_post \<Rightarrow> ustr \<Rightarrow> ustr \<Rightarrow> email_message" where
  "message_for sender_email post subject_prefix recipient =
     \<lparr>msg_subject = subject_prefix @ asc '': '' @ title post, msg_from = sender_email,
      msg_to = recipient, msg_text = create_email_body post,
      msg_html = create_html_body post\<rparr>"
section \<open>Facts about the string operations\<close>

lemma contains_here: "contains n (n @ b)"
proof (cases "n @ b")
  case Nil
  then show ?thesis by simp
next
  case (Cons a list)
  have "prefix n (n @ b)" by simp
  with Cons show ?thesis by simp
qed

lemma contains_skip: "contains n b \<Longrightarrow> contains n (a @ b)"
  by (induction a) auto

lemma contains_shorter: "contains (a @ b) s \<Longrightarrow> contains a s"
  by (induction s) (auto dest: append_prefixD)

lemma asc_inj: "asc a = asc b \<longleftrightarrow> a = b"
  by (simp add: asc_def inj_on_def)

lemma asc_append: "asc (a @ b) = asc a @ asc b"
  by (simp add: asc_def)

section \<open>The prompt carries the word-count range\<close>

lemma prompt_contains_guideline:
  "contains (length_guidelines_get l) (create_blog_prompt tp tn l aud h c)"
  unfolding create_blog_prompt_def
  by (rule contains_here | rule contains_skip)+

text \<open>
  Claim C9. The prompt built for the length \<open>short\<close> contains \<open>150-300 words\<close>, for
  \<open>medium\<close> it contains \<open>400-600 words\<close>, for \<open>long\<close> it contains
  \<open>700-1000 words\<close>, and for every other length value it contains the medium range
  \<open>400-600 words\<close>. The builder is a total function of its six arguments: it has no
  error result.
\<close>

theorem prompt_word_count_range:
  "contains (asc ''150-300 words'') (create_blog_prompt tp tn (asc ''short'') aud h c) \<and>
   contains (asc ''400-600 words'') (create_blog_prompt tp tn (asc ''medium'') aud h c) \<and>
   contains (asc ''700-1000 words'') (create_blog_prompt tp tn (asc ''long'') aud h c) \<and>
   (l \<notin> {asc ''short'', asc ''medium'', asc ''long''} \<longrightarrow>
      contains (asc ''400-600 words'') (create_blog_prompt tp tn l aud h c))"
proof -
  have g: "\<And>l. contains (length_guidelines_get l) (create_blog_prompt tp tn l aud h c)"
    by (rule prompt_contains_guideline)
  have s: "length_guidelines_get (asc ''short'') = asc ''150-300 words''"
    by (simp add: length_guidelines_get_def)
  have m: "length_guidelines_get (asc ''medium'') = asc ''400-600 words''"
    by (simp add: length_guidelines_get_def asc_inj)
  have lg: "length_guidelines_get (asc ''long'') = asc ''700-1000 words''"
    by (simp add: length_guidelines_get_def asc_inj)
  have d: "l \<notin> {asc ''short'', asc ''medium'', asc ''long''} \<Longrightarrow>
      length_guidelines_get l = asc ''400-600 words''"
    by (simp add: length_guidelines_get_def)
  show ?thesis
    using g[of "asc ''short''"] g[of "asc ''medium''"] g[of "asc ''long''"] g[of l] s m lg d
    by metis
qed

theorem prompt_word_count_range_witness:
  "asc ''epic'' \<notin> {asc ''short'', asc ''medium'', asc ''long''} \<and>
   contains (asc ''400-600 words'')
     (create_blog_prompt (asc ''AI'') (asc ''casual'') (asc ''epic'') (asc ''engineers'') True False)"
  using prompt_word_count_range
          [of "asc ''AI''" "asc ''casual''" "asc ''engineers''" True False "asc ''epic''"]
  by (simp add: asc_inj)

section \<open>Classification of generation failures\<close>

lemma classify_quota:
  "contains (asc ''quota'') (py_lower lo e) \<or> contains (asc ''exceeded'') (py_lower lo e) \<or>
   contains (asc ''limit'') (py_lower lo e) \<Longrightarrow>
   classify_api_error lo e = QuotaExceeded (quota_message e)"
  by (auto simp: classify_api_error_def)

lemma classify_rate_limit:
  assumes "contains (asc ''rate limit'') (py_lower lo e)"
  shows "classify_api_error lo e = QuotaExceeded (quota_message e)"
proof -
  obtain s where s: "py_lower lo e = s" by simp
  have "asc ''rate limit'' = asc ''rate '' @ asc ''limit''" by (simp add: asc_def)
  with assms s have "contains (asc ''rate '' @ asc ''limit'') s" by simp
  then have "contains (asc ''limit'') s"
  proof (induction s)
    case Nil
    then show ?case by (simp add: asc_def)
  next
    case (Cons c cs)
    show ?case
    proof (cases "prefix (asc ''rate '' @ asc ''limit'') (c # cs)")
      case True
      then obtain z where "c # cs = asc ''rate '' @ (asc ''limit'' @ z)" by (auto simp: prefix_def)
      moreover have "contains (asc ''limit'') (asc ''rate '' @ (asc ''limit'' @ z))"
        by (rule contains_skip) (rule contains_here)
      ultimately show ?thesis by simp
    next
      case False
      with Cons show ?thesis by simp
    qed
  qed
  with s show ?thesis by (simp add: classify_quota)
qed

lemma classify_quota_exceeded:
  assumes "contains (asc ''quota exceeded'') (py_lower lo e)"
  shows "classify_api_error lo e = QuotaExceeded (quota_message e)"
proof -
  have "asc ''quota exceeded'' = asc ''quota'' @ asc '' exceeded''"
    by (simp add: asc_def)
  with assms have "contains (asc ''quota'') (py_lower lo e)"
    by (metis contains_shorter)
  then show ?thesis by (simp add: classify_quota)
qed

lemma classify_rate:
  "contains (asc ''rate'') (py_lower lo e) \<Longrightarrow> \<not> contains (asc ''quota'') (py_lower lo e) \<Longrightarrow>
   \<not> contains (asc ''exceeded'') (py_lower lo e) \<Longrightarrow> \<not> contains (asc ''limit'') (py_lower lo e) \<Longrightarrow>
   classify_api_error lo e = RateLimitExceeded (rate_message e)"
  by (simp add: classify_api_error_def)

lemma classify_generic:
  "\<not> contains (asc ''quota'') (py_lower lo e) \<Longrightarrow> \<not> contains (asc ''exceeded'') (py_lower lo e) \<Longrightarrow>
   \<not> contains (asc ''limit'') (py_lower lo e) \<Longrightarrow> \<not> contains (asc ''rate'') (py_lower lo e) \<Longrightarrow>
   classify_api_error lo e = ApiError (asc ''Google AI API Error: '' @ e)"
  by (simp add: classify_api_error_def)

lemma messages_carry_text:
  "suffix e (quota_message e)" "suffix e (rate_message e)"
  "suffix e (asc ''Google AI API Error: '' @ e)"
  unfolding quota_message_def rate_message_def
  by (rule suffix_appendI | rule suffix_order.refl)+

text \<open>
  Claim C1, as the code has it. The handler looks at the lowercased text of the error.
  A text containing \<open>quota\<close>, \<open>exceeded\<close> or \<open>limit\<close> is classified as
  quota-exhausted: so is every text containing \<open>quota exceeded\<close>, and so is every
  text containing \<open>rate limit\<close>. A text containing \<open>rate\<close> and none of
  \<open>quota\<close>, \<open>exceeded\<close>, \<open>limit\<close> is classified as rate-limited. A text
  containing none of these four words is classified as generic. Each of the three
  messages ends with the original error text.
\<close>

theorem classify_api_error_keywords:
  "(contains (asc ''quota'') (py_lower lo e) \<or> contains (asc ''exceeded'') (py_lower lo e) \<or>
    contains (asc ''limit'') (py_lower lo e) \<longrightarrow>
      classify_api_error lo e = QuotaExceeded (quota_message e)) \<and>
   (contains (asc ''quota exceeded'') (py_lower lo e) \<longrightarrow>
      classify_api_error lo e = QuotaExceeded (quota_message e)) \<and>
   (contains (asc ''rate limit'') (py_lower lo e) \<longrightarrow>
      classify_api_error lo e = QuotaExceeded (quota_message e)) \<and>
   (contains (asc ''rate'') (py_lower lo e) \<and> \<not> contains (asc ''quota'') (py_lower lo e) \<and>
    \<not> contains (asc ''exceeded'') (py_lower lo e) \<and> \<not> contains (asc ''limit'') (py_lower lo e) \<longrightarrow>
      classify_api_error lo e = RateLimitExceeded (rate_message e)) \<and>
   (\<not> contains (asc ''quota'') (py_lower lo e) \<and> \<not> contains (asc ''exceeded'') (py_lower lo e) \<and>
    \<not> contains (asc ''limit'') (py_lower lo e) \<and> \<not> contains (asc ''rate'') (py_lower lo e) \<longrightarrow>
      classify_api_error lo e = ApiError (asc ''Google AI API Error: '' @ e)) \<and>
   suffix e (quota_message e) \<and> suffix e (rate_message e) \<and>
   suffix e (asc ''Google AI API Error: '' @ e)"
  using classify_quota[of lo e] classify_quota_exceeded[of lo e] classify_rate_limit[of lo e]
        classify_rate[of lo e] classify_generic[of lo e] messages_carry_text[of e]
  by blast

theorem classify_api_error_keywords_witness:
  "contains (asc ''quota exceeded'') (py_lower (map ascii_lower) (asc ''429 Quota exceeded'')) \<and>
   classify_api_error (map ascii_lower) (asc ''429 Quota exceeded'')
     = QuotaExceeded (quota_message (asc ''429 Quota exceeded'')) \<and>
   contains (asc ''limit'') (py_lower (map ascii_lower) (asc ''Daily LIMIT hit'')) \<and>
   classify_api_error (map ascii_lower) (asc ''Daily LIMIT hit'')
     = QuotaExceeded (quota_message (asc ''Daily LIMIT hit'')) \<and>
   contains (asc ''rate limit'') (py_lower (map ascii_lower) (asc ''Rate limit: slow down'')) \<and>
   classify_api_error (map ascii_lower) (asc ''Rate limit: slow down'')
     = QuotaExceeded (quota_message (asc ''Rate limit: slow down'')) \<and>
   contains (asc ''rate'') (py_lower (map ascii_lower) (asc ''Rate too high'')) \<and>
   classify_api_error (map ascii_lower) (asc ''Rate too high'')
     = RateLimitExceeded (rate_message (asc ''Rate too high'')) \<and>
   \<not> contains (asc ''rate'') (py_lower (map ascii_lower) (asc ''Connection reset'')) \<and>
   classify_api_error (map ascii_lower) (asc ''Connection reset'')
     = ApiError (asc ''Google AI API Error: '' @ asc ''Connection reset'')"
proof -
  have a: "contains (asc ''quota exceeded'') (py_lower (map ascii_lower) (asc ''429 Quota exceeded''))"
    by (simp add: py_lower_def asc_def ascii_lower_def)
  have l: "contains (asc ''limit'') (py_lower (map ascii_lower) (asc ''Daily LIMIT hit''))"
    by (simp add: py_lower_def asc_def ascii_lower_def)
  have r: "contains (asc ''rate limit'') (py_lower (map ascii_lower) (asc ''Rate limit: slow down''))"
    by (simp add: py_lower_def asc_def ascii_lower_def)
  have b: "contains (asc ''rate'') (py_lower (map ascii_lower) (asc ''Rate too high'')) \<and>
      \<not> contains (asc ''quota'') (py_lower (map ascii_lower) (asc ''Rate too high'')) \<and>
      \<not> contains (asc ''exceeded'') (py_lower (map ascii_lower) (asc ''Rate too high'')) \<and>
      \<not> contains (asc ''limit'') (py_lower (map ascii_lower) (asc ''Rate too high''))"
    by (simp add: py_lower_def asc_def ascii_lower_def)
  have c: "\<not> contains (asc ''quota'') (py_lower (map ascii_lower) (asc ''Connection reset'')) \<and>
      \<not> contains (asc ''exceeded'') (py_lower (map ascii_lower) (asc ''Connection reset'')) \<and>
      \<not> contains (asc ''limit'') (py_lower (map ascii_lower) (asc ''Connection reset'')) \<and>
      \<not> contains (asc ''rate'') (py_lower (map ascii_lower) (asc ''Connection reset''))"
    by (simp add: py_lower_def asc_def ascii_lower_def)
  have A: "classify_api_error (map ascii_lower) (asc ''429 Quota exceeded'')
     = QuotaExceeded (quota_message (asc ''429 Quota exceeded''))"
    using a classify_api_error_keywords [of "map ascii_lower" "asc ''429 Quota exceeded''"]
    by blast
  have L: "classify_api_error (map ascii_lower) (asc ''Daily LIMIT hit'')
     = QuotaExceeded (quota_message (asc ''Daily LIMIT hit''))"
    using l classify_api_error_keywords [of "map ascii_lower" "asc ''Daily LIMIT hit''"]
    by blast
  have R: "classify_api_error (map ascii_lower) (asc ''Rate limit: slow down'')
     = QuotaExceeded (quota_message (asc ''Rate limit: slow down''))"
    using r classify_api_error_keywords [of "map ascii_lower" "asc ''Rate limit: slow down''"]
    by blast
  have B: "classify_api_error (map ascii_lower) (asc ''Rate too high'')
     = RateLimitExceeded (rate_message (asc ''Rate too high''))"
    using b classify_api_error_keywords [of "map ascii_lower" "asc ''Rate too high''"]
    by blast
  have C: "classify_api_error (map ascii_lower) (asc ''Connection reset'')
     = ApiError (asc ''Google AI API Error: '' @ asc ''Connection reset'')"
    using c classify_api_error_keywords [of "map ascii_lower" "asc ''Connection reset''"]
    by blast
  from a l r b c A L R B C show ?thesis by (intro conjI) blast+
qed

text \<open>
  Claim C1, as the specification states it, fails: the text \<open>Rate limit reached\<close>
  contains \<open>rate limit\<close> once lowercased, and it is classified as quota-exhausted,
  because \<open>limit\<close> is tested first.
\<close>

theorem rate_limit_text_is_quota:
  "contains (asc ''rate limit'') (py_lower (map ascii_lower) (asc ''Rate limit reached'')) \<and>
   classify_api_error (map ascii_lower) (asc ''Rate limit reached'')
     = QuotaExceeded (quota_message (asc ''Rate limit reached''))"
  by (simp add: classify_api_error_def py_lower_def asc_def ascii_lower_def)

text \<open>
  Claim C2. An empty response text raises \<open>No content generated from Google AI\<close>
  inside the guarded block; the handler lowercases it, finds \<open>rate\<close> inside
  \<open>generated\<close>, and raises the rate-limit error, not the generic one.
\<close>

theorem empty_response_is_rate_limited:
  "generate_blog_post lo uw (\<lambda>prompt. Responds []) now tp tn l aud h c
     = Inl (RateLimitExceeded (rate_message (asc ''No content generated from Google AI'')))"
  by (simp add: generate_blog_post_def classify_api_error_def py_lower_def asc_def
        ascii_lower_def)

section \<open>What the sanitizer removes\<close>

lemma filter_dropWhile_same: "filter (\<lambda>x. \<not> P x) (dropWhile P xs) = filter (\<lambda>x. \<not> P x) xs"
  by (induction xs) auto

lemma remove_star_runs_filter: "remove_star_runs s = filter (\<lambda>x. x \<noteq> STAR) s"
proof (induction s rule: remove_star_runs.induct)
  case 1
  show ?case by simp
next
  case (2 c cs)
  show ?case
  proof (cases "c = STAR")
    case True
    with 2 show ?thesis
      using filter_dropWhile_same[of "\<lambda>x. x = STAR" cs] by simp
  next
    case False
    with 2 show ?thesis by simp
  qed
qed

lemma set_lstrip: "set (lstrip s) \<subseteq> set s"
  unfolding lstrip_def by (auto dest: set_dropWhileD)

lemma set_rstrip: "set (rstrip s) \<subseteq> set s"
  unfolding rstrip_def by (auto dest: set_dropWhileD)

lemma set_strip: "set (strip s) \<subseteq> set s"
  unfolding strip_def using set_lstrip set_rstrip by blast

lemma set_collapse_newlines: "set (collapse_newlines s) \<subseteq> set s"
proof (induction s rule: collapse_newlines.induct)
  case 1
  show ?case by simp
next
  case (2 c cs)
  show ?case
  proof (cases "c = NL \<and> prefix [NL, NL] cs")
    case True
    with 2 have "set (collapse_newlines (dropWhile (\<lambda>x. x = NL) cs)) \<subseteq> set cs"
      using set_dropWhileD[of _ "\<lambda>x. x = NL" cs] by blast
    with True show ?thesis by auto
  next
    case False
    with 2 show ?thesis by auto
  qed
qed

lemma set_strip_bullets: "set (strip_bullets bol s) \<subseteq> set s"
proof (induction bol s rule: strip_bullets.induct)
  case (1 bol)
  show ?case by simp
next
  case (2 bol c cs)
  show ?case
  proof (cases "bol \<and> c \<in> set bullet_symbols")
    case True
    with 2 have "set (strip_bullets bol (c # cs)) \<subseteq> set (dropWhile is_space cs)"
      by simp
    then show ?thesis using set_dropWhileD[of _ is_space cs] by auto
  next
    case False
    with 2 show ?thesis by auto
  qed
qed

lemma set_strip_markers: "set (strip_markers bol s) \<subseteq> set s"
proof (induction bol s rule: strip_markers.induct)
  case (1 bol)
  show ?case by simp
next
  case (2 bol c cs)
  show ?case
  proof (cases "bol \<and> (c = 45 \<or> c = STAR) \<and> takeWhile is_space cs \<noteq> []")
    case True
    with 2 have "set (strip_markers bol (c # cs)) \<subseteq> set (dropWhile is_space cs)"
      by simp
    then show ?thesis using set_dropWhileD[of _ is_space cs] by auto
  next
    case False
    with 2 show ?thesis by auto
  qed
qed

lemma clean_title_set:
  "set (clean_title t) \<subseteq> {c \<in> set t. c \<noteq> STAR \<and> c \<notin> set decor_symbols}"
  using set_strip[of "remove_class decor_symbols (remove_star_runs t)"]
  by (auto simp: clean_title_def remove_class_def remove_star_runs_filter)

lemma clean_cta_set:
  "set (clean_cta t) \<subseteq> {c \<in> set t. c \<noteq> STAR \<and> c \<notin> set decor_symbols}"
  using set_strip[of "remove_star_runs (remove_class decor_symbols t)"]
  by (auto simp: clean_cta_def remove_class_def remove_star_runs_filter)

lemma clean_body_set:
  "set (clean_body t) \<subseteq> {c. c \<noteq> STAR \<and> c \<notin> set decor_symbols_content}"
proof (cases "t = []")
  case True
  then show ?thesis by (simp add: clean_body_def)
next
  case False
  let ?a = "remove_class decor_symbols_content (remove_star_runs (unwrap_italic (unwrap_bold t)))"
  have "set (clean_body t) \<subseteq> set ?a"
    using False set_strip set_strip_markers set_strip_bullets set_collapse_newlines
    unfolding clean_body_def by (metis (full_types) subset_trans)
  moreover have "set ?a \<subseteq> {c. c \<noteq> STAR \<and> c \<notin> set decor_symbols_content}"
    by (auto simp: remove_class_def remove_star_runs_filter)
  ultimately show ?thesis by blast
qed

lemma decor_symbols_subset: "set decor_symbols \<subseteq> set decor_symbols_content"
  by (simp add: decor_symbols_def decor_symbols_content_def)

text \<open>
  Claim C7. For every input record, the sanitized title, content and call to action
  contain no asterisk and no code point of the class of decorative symbols that the
  sanitizer removes from every field; the content is moreover free of the longer class
  that is applied to it.
\<close>

theorem sanitized_fields_free_of_symbols:
  "STAR \<notin> set (title (clean_content uw bd)) \<and>
   STAR \<notin> set (content (clean_content uw bd)) \<and>
   STAR \<notin> set (call_to_action (clean_content uw bd)) \<and>
   set (title (clean_content uw bd)) \<inter> set decor_symbols = {} \<and>
   set (content (clean_content uw bd)) \<inter> set decor_symbols_content = {} \<and>
   set (content (clean_content uw bd)) \<inter> set decor_symbols = {} \<and>
   set (call_to_action (clean_content uw bd)) \<inter> set decor_symbols = {}"
  using clean_title_set[of "title bd"] clean_body_set[of "content bd"]
        clean_cta_set[of "call_to_action bd"] decor_symbols_subset
  unfolding clean_content_def by (simp add: disjoint_iff subset_iff) blast

section \<open>Running the sanitizer twice\<close>

lemma rstrip_prefix: "prefix (rstrip t) t"
proof -
  have "t = rev (dropWhile is_space (rev t)) @ rev (takeWhile is_space (rev t))"
    by (metis rev_append rev_rev_ident takeWhile_dropWhile_id)
  then show ?thesis unfolding rstrip_def by (metis prefixI)
qed

lemma lstrip_fixed: "s = [] \<or> \<not> is_space (hd s) \<Longrightarrow> lstrip s = s"
  unfolding lstrip_def by (cases s) auto

lemma lstrip_head: "lstrip s = [] \<or> \<not> is_space (hd (lstrip s))"
  unfolding lstrip_def by (metis hd_dropWhile)

lemma rstrip_rstrip: "rstrip (rstrip t) = rstrip t"
  unfolding rstrip_def by (simp add: dropWhile_idem)

lemma strip_strip: "strip (strip s) = strip s"
proof -
  let ?r = "rstrip (lstrip s)"
  have "?r = [] \<or> \<not> is_space (hd ?r)"
  proof (cases "?r")
    case Nil
    then show ?thesis by simp
  next
    case (Cons y ys)
    from rstrip_prefix[of "lstrip s"] Cons have "hd (lstrip s) = y" "lstrip s \<noteq> []"
      by (auto simp: prefix_def)
    with lstrip_head[of s] Cons show ?thesis by simp
  qed
  then have "lstrip ?r = ?r" by (rule lstrip_fixed)
  then show ?thesis unfolding strip_def by (simp add: rstrip_rstrip)
qed

lemma unwrap_bold_no_star: "STAR \<notin> set s \<Longrightarrow> unwrap_bold s = s"
proof (induction s rule: unwrap_bold.induct)
  case 1
  show ?case by simp
next
  case (2 c cs)
  then have "c \<noteq> STAR" "STAR \<notin> set cs" by auto
  with 2 show ?case by simp
qed

lemma unwrap_italic_no_star: "STAR \<notin> set s \<Longrightarrow> unwrap_italic s = s"
proof (induction s rule: unwrap_italic.induct)
  case 1
  show ?case by simp
next
  case (2 c cs)
  then have "c \<noteq> STAR" "STAR \<notin> set cs" by auto
  with 2 show ?case by simp
qed

lemma remove_class_none: "set s \<inter> set cls = {} \<Longrightarrow> remove_class cls s = s"
  unfolding remove_class_def by (induction s) auto

lemma remove_star_runs_none: "STAR \<notin> set s \<Longrightarrow> remove_star_runs s = s"
  unfolding remove_star_runs_filter by (induction s) auto

lemma clean_title_twice: "clean_title (clean_title t) = clean_title t"
proof (cases "clean_title t = []")
  case True
  then show ?thesis by (simp add: clean_title_def)
next
  case False
  then have t: "t \<noteq> []" by (auto simp: clean_title_def)
  let ?y = "clean_title t"
  have "STAR \<notin> set ?y" "set ?y \<inter> set decor_symbols = {}"
    using clean_title_set[of t] by auto
  then have "remove_class decor_symbols (remove_star_runs ?y) = ?y"
    by (simp add: remove_star_runs_none remove_class_none)
  moreover have "strip ?y = ?y"
    using t by (simp add: clean_title_def strip_strip)
  ultimately show ?thesis using False by (simp add: clean_title_def[of ?y])
qed

lemma clean_cta_twice: "clean_cta (clean_cta t) = clean_cta t"
proof (cases "clean_cta t = []")
  case True
  then show ?thesis by (simp add: clean_cta_def)
next
  case False
  then have t: "t \<noteq> []" by (auto simp: clean_cta_def)
  let ?y = "clean_cta t"
  have "STAR \<notin> set ?y" "set ?y \<inter> set decor_symbols = {}"
    using clean_cta_set[of t] by auto
  then have "remove_star_runs (remove_class decor_symbols ?y) = ?y"
    by (simp add: remove_star_runs_none remove_class_none)
  moreover have "strip ?y = ?y"
    using t by (simp add: clean_cta_def strip_strip)
  ultimately show ?thesis using False by (simp add: clean_cta_def[of ?y])
qed

lemma ntn_mono: "no_triple_newline k s \<Longrightarrow> j \<le> k \<Longrightarrow> no_triple_newline j s"
  by (induction s arbitrary: k j) (auto split: if_splits)

lemma ntn_tail: "no_triple_newline k (c # cs) \<Longrightarrow> no_triple_newline 0 cs"
  by (auto split: if_splits intro: ntn_mono)

lemma ntn_no_nl_head: "s = [] \<or> hd s \<noteq> NL \<Longrightarrow> no_triple_newline k s = no_triple_newline 0 s"
  by (cases s) auto

lemma ntn_dropWhile: "no_triple_newline k s \<Longrightarrow> no_triple_newline 0 (dropWhile P s)"
proof (induction s arbitrary: k)
  case Nil
  then show ?case by simp
next
  case (Cons c cs)
  show ?case
  proof (cases "P c")
    case True
    from Cons.prems have "no_triple_newline 0 cs" by (rule ntn_tail)
    with Cons.IH True show ?thesis by simp
  next
    case False
    with Cons.prems show ?thesis using ntn_mono[of k "c # cs" 0] by simp
  qed
qed

lemma ntn_prefix: "no_triple_newline k (a @ b) \<Longrightarrow> no_triple_newline k a"
  by (induction a arbitrary: k) (auto split: if_splits)

lemma dropWhile_space_head: "dropWhile is_space s = [] \<or> hd (dropWhile is_space s) \<noteq> NL"
proof -
  have "is_space NL" by (simp add: is_space_def)
  then show ?thesis by (metis hd_dropWhile)
qed

lemma ntn_skip_space: "no_triple_newline j cs \<Longrightarrow> no_triple_newline k (dropWhile is_space cs)"
  using ntn_dropWhile[of j cs is_space] ntn_no_nl_head[OF dropWhile_space_head, of k cs]
  by simp

lemma ntn_strip_bullets: "no_triple_newline k s \<Longrightarrow> no_triple_newline k (strip_bullets bol s)"
proof (induction bol s arbitrary: k rule: strip_bullets.induct)
  case (1 bol)
  show ?case by simp
next
  case (2 bol c cs)
  show ?case
  proof (cases "bol \<and> c \<in> set bullet_symbols")
    case True
    from "2.prems" have "no_triple_newline 0 cs" by (rule ntn_tail)
    then have "no_triple_newline k (dropWhile is_space cs)" by (rule ntn_skip_space)
    with True "2.IH"(1) show ?thesis by simp
  next
    case False
    with "2.prems" "2.IH"(2) show ?thesis by (auto split: if_splits)
  qed
qed

lemma ntn_strip_markers: "no_triple_newline k s \<Longrightarrow> no_triple_newline k (strip_markers bol s)"
proof (induction bol s arbitrary: k rule: strip_markers.induct)
  case (1 bol)
  show ?case by simp
next
  case (2 bol c cs)
  show ?case
  proof (cases "bol \<and> (c = 45 \<or> c = STAR) \<and> takeWhile is_space cs \<noteq> []")
    case True
    from "2.prems" have "no_triple_newline 0 cs" by (rule ntn_tail)
    then have "no_triple_newline k (dropWhile is_space cs)" by (rule ntn_skip_space)
    with True "2.IH"(1) show ?thesis by simp
  next
    case False
    with "2.prems" "2.IH"(2) show ?thesis by (auto split: if_splits)
  qed
qed

lemma ntn_strip: "no_triple_newline k s \<Longrightarrow> no_triple_newline 0 (strip s)"
proof -
  assume "no_triple_newline k s"
  then have a: "no_triple_newline 0 (lstrip s)"
    unfolding lstrip_def by (rule ntn_dropWhile)
  obtain z where "lstrip s = rstrip (lstrip s) @ z"
    using rstrip_prefix[of "lstrip s"] by (auto simp: prefix_def)
  with a have "no_triple_newline 0 (rstrip (lstrip s))"
    using ntn_prefix[of 0 "rstrip (lstrip s)" z] by simp
  then show ?thesis by (simp add: strip_def)
qed

lemma ntn_collapse:
  "k + min 2 (length (takeWhile (\<lambda>x. x = NL) s)) \<le> 2 \<Longrightarrow> no_triple_newline k (collapse_newlines s)"
proof (induction s arbitrary: k rule: collapse_newlines.induct)
  case 1
  show ?case by simp
next
  case (2 c cs)
  show ?case
  proof (cases "c = NL \<and> prefix [NL, NL] cs")
    case True
    then obtain r where cs: "cs = NL # NL # r" by (auto simp: prefix_def)
    with True "2.prems" have k: "k = 0" by simp
    have "takeWhile (\<lambda>x. x = NL) (dropWhile (\<lambda>x. x = NL) cs) = []"
      by (metis (mono_tags, lifting) dropWhile_eq_Nil_conv hd_dropWhile takeWhile.simps(1)
            takeWhile_eq_Nil_iff)
    then have "no_triple_newline 2 (collapse_newlines (dropWhile (\<lambda>x. x = NL) cs))"
      using "2.IH"(1)[OF True, of 2] by simp
    with True k show ?thesis by (simp add: numeral_2_eq_2)
  next
    case False
    show ?thesis
    proof (cases "c = NL")
      case True
      with False have np: "\<not> prefix [NL, NL] cs" by simp
      have le1: "length (takeWhile (\<lambda>x. x = NL) cs) \<le> 1"
      proof (cases cs)
        case Nil
        then show ?thesis by simp
      next
        case (Cons d ds)
        with np show ?thesis by (cases ds) auto
      qed
      with True "2.prems" have "Suc k + min 2 (length (takeWhile (\<lambda>x. x = NL) cs)) \<le> 2"
        by simp
      then have "no_triple_newline (Suc k) (collapse_newlines cs)"
        using "2.IH"(2)[OF False] by simp
      moreover from True "2.prems" le1 have "k < 2" by simp
      ultimately show ?thesis using True False by simp
    next
      case nn: False
      have "no_triple_newline 0 (collapse_newlines cs)"
        using "2.IH"(2)[OF False, of 0] by simp
      with nn False show ?thesis by simp
    qed
  qed
qed

lemma collapse_fixed: "no_triple_newline k s \<Longrightarrow> collapse_newlines s = s"
proof (induction s arbitrary: k rule: collapse_newlines.induct)
  case 1
  show ?case by simp
next
  case (2 c cs)
  have n: "\<not> (c = NL \<and> prefix [NL, NL] cs)"
  proof
    assume a: "c = NL \<and> prefix [NL, NL] cs"
    then obtain r where "cs = NL # NL # r" by (auto simp: prefix_def)
    with a "2.prems" show False by simp
  qed
  from "2.prems" have "no_triple_newline 0 cs" by (rule ntn_tail)
  then have "collapse_newlines cs = cs" by (rule "2.IH"(2)[OF n])
  moreover have "collapse_newlines (c # cs) = c # collapse_newlines cs"
    using n by (simp only: collapse_newlines.simps if_False)
  ultimately show ?case by simp
qed

lemma clean_body_no_triple: "no_triple_newline 0 (clean_body c)"
proof (cases "c = []")
  case True
  then show ?thesis by (simp add: clean_body_def)
next
  case False
  let ?a = "remove_class decor_symbols_content (remove_star_runs (unwrap_italic (unwrap_bold c)))"
  have "no_triple_newline 0 (collapse_newlines ?a)"
    by (rule ntn_collapse) simp
  then have "no_triple_newline 0 (strip_markers True (strip_bullets True (collapse_newlines ?a)))"
    by (intro ntn_strip_markers ntn_strip_bullets)
  then have "no_triple_newline 0 (strip (strip_markers True (strip_bullets True (collapse_newlines ?a))))"
    by (rule ntn_strip)
  with False show ?thesis by (simp add: clean_body_def)
qed

lemma clean_body_twice:
  assumes "strip_bullets True (clean_body c) = clean_body c"
      and "strip_markers True (clean_body c) = clean_body c"
  shows "clean_body (clean_body c) = clean_body c"
proof (cases "clean_body c = []")
  case True
  then show ?thesis by (simp add: clean_body_def)
next
  case False
  then have c: "c \<noteq> []" by (auto simp: clean_body_def)
  let ?y = "clean_body c"
  have "STAR \<notin> set ?y" "set ?y \<inter> set decor_symbols_content = {}"
    using clean_body_set[of c] by auto
  then have "remove_class decor_symbols_content (remove_star_runs (unwrap_italic (unwrap_bold ?y))) = ?y"
    by (simp add: unwrap_bold_no_star unwrap_italic_no_star remove_star_runs_none
          remove_class_none)
  moreover have "collapse_newlines ?y = ?y"
    using clean_body_no_triple by (rule collapse_fixed)
  moreover have "strip ?y = ?y"
    using c by (simp add: clean_body_def strip_strip)
  ultimately show ?thesis using False assms by (simp add: clean_body_def[of ?y])
qed

lemma tag_char_word: "tag_char d \<Longrightarrow> py_word uw d"
  by (auto simp: tag_char_def py_word_def ascii_letter_def ascii_digit_def)

lemma ascii_letter_word: "ascii_letter d \<Longrightarrow> py_word uw d"
  by (auto simp: py_word_def ascii_letter_def)

lemma hash_marks_run:
  "py_word uw q \<Longrightarrow>
   hash_marks uw (Some q) cs =
     takeWhile tag_char cs
       @ hash_marks uw (Some (last (q # takeWhile tag_char cs))) (dropWhile tag_char cs)"
proof (induction cs arbitrary: q)
  case Nil
  show ?case by simp
next
  case (Cons d ds)
  show ?case
  proof (cases "tag_char d")
    case True
    then have w: "py_word uw d" by (rule tag_char_word)
    from Cons.prems have "\<not> starts_tag uw (Some q) d" by (simp add: starts_tag_def)
    with True Cons.IH[OF w] show ?thesis by simp
  next
    case False
    then show ?thesis by simp
  qed
qed

lemma prefix_hashtags_marks: "prefix_hashtags uw p s = hash_marks uw p s"
proof (induction uw p s rule: prefix_hashtags.induct)
  case (1 uw prev)
  show ?case by simp
next
  case (2 uw prev c cs)
  show ?case
  proof (cases "starts_tag uw prev c")
    case True
    then have "py_word uw c" by (simp add: starts_tag_def ascii_letter_word)
    from hash_marks_run[OF this, of cs] True "2.IH"(1) show ?thesis by simp
  next
    case False
    with "2.IH"(2) show ?thesis by simp
  qed
qed

lemma hash_not_letter: "\<not> ascii_letter HASH"
  by (simp add: ascii_letter_def)

lemma hash_marks_twice: "hash_marks uw p (hash_marks uw p s) = hash_marks uw p s"
proof (induction s arbitrary: p)
  case Nil
  show ?case by simp
next
  case (Cons c cs)
  have a: "\<not> starts_tag uw p HASH" by (simp add: starts_tag_def hash_not_letter)
  have b: "\<not> starts_tag uw (Some HASH) c" by (simp add: starts_tag_def)
  show ?case using Cons.IH[of "Some c"] a b by simp
qed

lemma hash_marks_append:
  "hash_marks uw p (a @ b) = hash_marks uw p a @ hash_marks uw (if a = [] then p else Some (last a)) b"
  by (induction a arbitrary: p) auto

lemma hash_marks_length: "length s \<le> length (hash_marks uw p s)"
  by (induction s arbitrary: p) (auto intro: le_SucI)

lemma hash_marks_set: "set (hash_marks uw p s) \<subseteq> insert HASH (set s)"
  by (induction s arbitrary: p) auto

lemma hash_marks_fixed_parts:
  assumes "hash_marks uw p (a @ b) = a @ b"
  shows "hash_marks uw p a = a"
    and "hash_marks uw (if a = [] then p else Some (last a)) b = b"
proof -
  let ?q = "if a = [] then p else Some (last a)"
  have e: "hash_marks uw p a @ hash_marks uw ?q b = a @ b"
    using assms by (simp add: hash_marks_append)
  have "length (hash_marks uw p a) + length (hash_marks uw ?q b) = length a + length b"
    using arg_cong[OF e, of length] by simp
  then have "length (hash_marks uw p a) = length a"
    using hash_marks_length[of a uw p] hash_marks_length[of b uw ?q] by linarith
  with e show "hash_marks uw p a = a" "hash_marks uw ?q b = b" by auto
qed

lemma space_not_hash: "is_space q \<Longrightarrow> q \<noteq> HASH"
  by (auto simp: is_space_def)

lemma hash_marks_after_space:
  "is_space q \<Longrightarrow> \<not> py_word uw q \<Longrightarrow> hash_marks uw (Some q) s = hash_marks uw None s"
  by (cases s) (auto simp: starts_tag_def dest: space_not_hash)

lemma hash_marks_lstrip_fixed:
  assumes sp: "\<And>c. is_space c \<Longrightarrow> \<not> py_word uw c" and f: "hash_marks uw None w = w"
  shows "hash_marks uw None (lstrip w) = lstrip w"
proof (cases "takeWhile is_space w = []")
  case True
  then have "lstrip w = w" unfolding lstrip_def
    by (metis append_Nil takeWhile_dropWhile_id)
  with f show ?thesis by simp
next
  case False
  let ?l = "takeWhile is_space w"
  have w: "w = ?l @ lstrip w" by (simp add: lstrip_def)
  from False have "last ?l \<in> set ?l" by simp
  then have s: "is_space (last ?l)" by (metis set_takeWhileD)
  from f w have "hash_marks uw None (?l @ lstrip w) = ?l @ lstrip w" by simp
  from hash_marks_fixed_parts(2)[OF this] False
  have "hash_marks uw (Some (last ?l)) (lstrip w) = lstrip w" by simp
  then show ?thesis using hash_marks_after_space[OF s sp[OF s]] by simp
qed

lemma hash_marks_strip_fixed:
  assumes sp: "\<And>c. is_space c \<Longrightarrow> \<not> py_word uw c" and f: "hash_marks uw None w = w"
  shows "hash_marks uw None (strip w) = strip w"
proof -
  have a: "hash_marks uw None (lstrip w) = lstrip w"
    using sp f by (rule hash_marks_lstrip_fixed)
  obtain z where z: "lstrip w = rstrip (lstrip w) @ z"
    using rstrip_prefix[of "lstrip w"] by (auto simp: prefix_def)
  with a have "hash_marks uw None (rstrip (lstrip w) @ z) = rstrip (lstrip w) @ z" by simp
  from hash_marks_fixed_parts(1)[OF this] show ?thesis by (simp add: strip_def)
qed

lemma hash_not_decor: "HASH \<notin> set decor_symbols"
  by (simp add: decor_symbols_def)

lemma clean_hashtags_twice:
  assumes sp: "\<And>c. is_space c \<Longrightarrow> \<not> py_word uw c"
  shows "clean_hashtags uw (clean_hashtags uw h) = clean_hashtags uw h"
proof (cases "clean_hashtags uw h = []")
  case True
  then show ?thesis by (simp add: clean_hashtags_def)
next
  case False
  then have h: "h \<noteq> []" by (auto simp: clean_hashtags_def)
  define w where "w = hash_marks uw None (remove_class decor_symbols h)"
  define y where "y = strip w"
  have y: "clean_hashtags uw h = y"
    using h by (simp add: clean_hashtags_def prefix_hashtags_marks y_def w_def)
  have "set y \<subseteq> set w" unfolding y_def by (rule set_strip)
  also have "\<dots> \<subseteq> insert HASH (set (remove_class decor_symbols h))"
    unfolding w_def by (rule hash_marks_set)
  finally have "set y \<inter> set decor_symbols = {}"
    using hash_not_decor by (auto simp: remove_class_def)
  then have a: "remove_class decor_symbols y = y" by (rule remove_class_none)
  have "hash_marks uw None w = w" unfolding w_def by (rule hash_marks_twice)
  with sp have b: "hash_marks uw None y = y" unfolding y_def by (rule hash_marks_strip_fixed)
  have c: "strip y = y" unfolding y_def by (rule strip_strip)
  have "clean_hashtags uw y = y"
    using a b c by (simp add: clean_hashtags_def prefix_hashtags_marks)
  then show ?thesis by (simp add: y)
qed

lemma no_word_table: "is_space c \<Longrightarrow> \<not> py_word (\<lambda>c. False) c"
  by (auto simp: is_space_def py_word_def ascii_letter_def ascii_digit_def)

text \<open>
  Claim C3, as the code has it. The sanitizer is a total function of the record (every
  scan above terminates). For a table of word characters that holds no whitespace, as
  Unicode's does, a second run leaves the title, the hashtags and the call to action of
  a sanitized record as they are, and the raw text is never touched. The whole record is
  left as it is when the first run left no bullet and no list marker at the start of a
  content line, that is when the two marker-stripping scans do not change the sanitized
  content.
\<close>

theorem sanitizer_second_pass:
  assumes "\<And>c. is_space c \<Longrightarrow> \<not> py_word uw c"
  shows "title (clean_content uw (clean_content uw bd)) = title (clean_content uw bd) \<and>
         hashtags (clean_content uw (clean_content uw bd)) = hashtags (clean_content uw bd) \<and>
         call_to_action (clean_content uw (clean_content uw bd))
           = call_to_action (clean_content uw bd) \<and>
         full_post (clean_content uw (clean_content uw bd)) = full_post bd \<and>
         (strip_bullets True (content (clean_content uw bd)) = content (clean_content uw bd) \<and>
          strip_markers True (content (clean_content uw bd)) = content (clean_content uw bd) \<longrightarrow>
            clean_content uw (clean_content uw bd) = clean_content uw bd)"
  using clean_title_twice[of "title bd"] clean_cta_twice[of "call_to_action bd"]
        clean_hashtags_twice[OF assms, of "hashtags bd"] clean_body_twice[of "content bd"]
  by (simp add: clean_content_def)

theorem sanitizer_second_pass_witness:
  "strip_bullets True (content (clean_content (\<lambda>c. False)
       \<lparr>title = asc ''**Hi** '', content = asc ''Intro\<newline>\<newline>\<newline>\<newline>- *text*'',
        hashtags = asc ''ai #ml'', call_to_action = asc ''Go*'', full_post = asc ''raw''\<rparr>))
     = asc ''Intro\<newline>\<newline>text'' \<and>
   strip_markers True (content (clean_content (\<lambda>c. False)
       \<lparr>title = asc ''**Hi** '', content = asc ''Intro\<newline>\<newline>\<newline>\<newline>- *text*'',
        hashtags = asc ''ai #ml'', call_to_action = asc ''Go*'', full_post = asc ''raw''\<rparr>))
     = asc ''Intro\<newline>\<newline>text'' \<and>
   clean_content (\<lambda>c. False)
       \<lparr>title = asc ''**Hi** '', content = asc ''Intro\<newline>\<newline>\<newline>\<newline>- *text*'',
        hashtags = asc ''ai #ml'', call_to_action = asc ''Go*'', full_post = asc ''raw''\<rparr>
     = \<lparr>title = asc ''Hi'', content = asc ''Intro\<newline>\<newline>text'',
        hashtags = asc ''#ai #ml'', call_to_action = asc ''Go'', full_post = asc ''raw''\<rparr> \<and>
   clean_content (\<lambda>c. False) (clean_content (\<lambda>c. False)
       \<lparr>title = asc ''**Hi** '', content = asc ''Intro\<newline>\<newline>\<newline>\<newline>- *text*'',
        hashtags = asc ''ai #ml'', call_to_action = asc ''Go*'', full_post = asc ''raw''\<rparr>)
     = \<lparr>title = asc ''Hi'', content = asc ''Intro\<newline>\<newline>text'',
        hashtags = asc ''#ai #ml'', call_to_action = asc ''Go'', full_post = asc ''raw''\<rparr>"
proof -
  define bd where "bd = \<lparr>title = asc ''**Hi** '', content = asc ''Intro\<newline>\<newline>\<newline>\<newline>- *text*'',
        hashtags = asc ''ai #ml'', call_to_action = asc ''Go*'', full_post = asc ''raw''\<rparr>"
  have e: "clean_content (\<lambda>c. False) bd
     = \<lparr>title = asc ''Hi'', content = asc ''Intro\<newline>\<newline>text'',
        hashtags = asc ''#ai #ml'', call_to_action = asc ''Go'', full_post = asc ''raw''\<rparr>"
    unfolding bd_def
    by (simp add: clean_content_def clean_title_def clean_body_def clean_hashtags_def
          clean_cta_def asc_def remove_class_def decor_symbols_def decor_symbols_content_def
          bullet_symbols_def strip_def lstrip_def rstrip_def is_space_def starts_tag_def
          tag_char_def ascii_letter_def ascii_digit_def py_word_def)
  have b: "strip_bullets True (asc ''Intro\<newline>\<newline>text'') = asc ''Intro\<newline>\<newline>text''"
    by (simp add: asc_def bullet_symbols_def)
  have m: "strip_markers True (asc ''Intro\<newline>\<newline>text'') = asc ''Intro\<newline>\<newline>text''"
    by (simp add: asc_def)
  show ?thesis
    using sanitizer_second_pass[of "\<lambda>c. False" bd, OF no_word_table] e b m
    unfolding bd_def by simp
qed

text \<open>
  Claim C3, as the specification states it, fails on the content: each run strips one
  list marker from the start of a line, so \<open>- - x\<close> becomes \<open>- x\<close> and a second
  run gives \<open>x\<close>.
\<close>

theorem second_pass_strips_more:
  "content (clean_content (\<lambda>c. False)
      \<lparr>title = [], content = asc ''- - x'', hashtags = [], call_to_action = [],
       full_post = []\<rparr>) = asc ''- x'' \<and>
   content (clean_content (\<lambda>c. False) (clean_content (\<lambda>c. False)
      \<lparr>title = [], content = asc ''- - x'', hashtags = [], call_to_action = [],
       full_post = []\<rparr>)) = asc ''x'' \<and>
   clean_content (\<lambda>c. False) (clean_content (\<lambda>c. False)
      \<lparr>title = [], content = asc ''- - x'', hashtags = [], call_to_action = [],
       full_post = []\<rparr>)
     \<noteq> clean_content (\<lambda>c. False)
      \<lparr>title = [], content = asc ''- - x'', hashtags = [], call_to_action = [],
       full_post = []\<rparr>"
  by (simp add: clean_content_def clean_title_def clean_body_def clean_hashtags_def
          clean_cta_def asc_def remove_class_def decor_symbols_content_def
          bullet_symbols_def strip_def lstrip_def rstrip_def is_space_def)

section \<open>Hashtag normalization, token by token\<close>

declare tokens.simps [simp del]

lemma space_not_letter: "is_space c \<Longrightarrow> \<not> ascii_letter c"
  by (auto simp: is_space_def ascii_letter_def)

lemma hash_not_space: "\<not> is_space HASH"
  by (simp add: is_space_def)

lemma hash_marks_spaces: "\<forall>c\<in>set l. is_space c \<Longrightarrow> hash_marks uw p l = l"
  by (induction l arbitrary: p) (auto simp: starts_tag_def dest: space_not_letter)

lemma hash_marks_Nil_iff: "hash_marks uw p s = [] \<longleftrightarrow> s = []"
  by (cases s) auto

lemma hash_marks_space_head:
  "s = [] \<or> is_space (hd s) \<Longrightarrow> hash_marks uw p s = [] \<or> is_space (hd (hash_marks uw p s))"
  by (cases s) (auto simp: starts_tag_def dest: space_not_letter)

lemma tokens_Nil: "tokens [] = []"
  by (simp add: tokens.simps)

lemma tokens_skip: "\<forall>c\<in>set l. is_space c \<Longrightarrow> tokens (l @ x) = tokens x"
proof -
  assume "\<forall>c\<in>set l. is_space c"
  then have "dropWhile is_space (l @ x) = dropWhile is_space x"
    by (simp add: dropWhile_append2)
  then show ?thesis by (simp add: tokens.simps[of "l @ x"] tokens.simps[of x])
qed

lemma take_drop_nonspace_append:
  "z = [] \<or> is_space (hd z) \<Longrightarrow>
   takeWhile (\<lambda>c. \<not> is_space c) (r @ z) = takeWhile (\<lambda>c. \<not> is_space c) r \<and>
   dropWhile (\<lambda>c. \<not> is_space c) (r @ z) = dropWhile (\<lambda>c. \<not> is_space c) r @ z"
  by (induction r) (auto, (cases z; simp)+)

lemma tokens_first:
  assumes "a \<noteq> []" "\<forall>c\<in>set a. \<not> is_space c" "b = [] \<or> is_space (hd b)"
  shows "tokens (a @ b) = a # tokens b"
proof -
  from assms(1,2) have d: "dropWhile is_space (a @ b) = a @ b"
    by (cases a) auto
  have t: "takeWhile (\<lambda>c. \<not> is_space c) a = a" "dropWhile (\<lambda>c. \<not> is_space c) a = []"
    using assms(2) by auto
  from take_drop_nonspace_append[OF assms(3), of a] t
  have "takeWhile (\<lambda>c. \<not> is_space c) (a @ b) = a" "dropWhile (\<lambda>c. \<not> is_space c) (a @ b) = b"
    by auto
  with d assms(1) show ?thesis by (simp add: tokens.simps[of "a @ b"])
qed


lemma dropWhile_nonspace_head:
  "dropWhile (\<lambda>c. \<not> is_space c) r = [] \<or> is_space (hd (dropWhile (\<lambda>c. \<not> is_space c) r))"
  using hd_dropWhile[of "\<lambda>c. \<not> is_space c" r] by blast

lemma tokens_hash_marks:
  assumes sp: "\<And>c. is_space c \<Longrightarrow> \<not> py_word uw c"
  shows "p = None \<or> s = [] \<or> is_space (hd s) \<Longrightarrow>
         tokens (hash_marks uw p s) = map (hash_marks uw None) (tokens s)"
proof (induction s arbitrary: p rule: tokens.induct)
  case (1 s)
  define l where "l = takeWhile is_space s"
  define r where "r = dropWhile is_space s"
  have s: "s = l @ r" by (simp add: l_def r_def)
  have ls: "\<forall>c\<in>set l. is_space c" unfolding l_def by (auto dest: set_takeWhileD)
  have hr: "hash_marks uw (if l = [] then p else Some (last l)) r = hash_marks uw None r"
  proof (cases "l = []")
    case True
    show ?thesis
    proof (cases "r = []")
      case True
      then show ?thesis by simp
    next
      case False
      then have "\<not> is_space (hd r)" unfolding r_def by (metis hd_dropWhile)
      with True s False "1.prems" have "p = None" by auto
      with True show ?thesis by simp
    qed
  next
    case False
    then have "is_space (last l)" using ls by (meson last_in_set)
    from hash_marks_after_space[OF this sp[OF this]] False show ?thesis by simp
  qed
  have hs: "hash_marks uw p s = l @ hash_marks uw None r"
    using hr by (simp add: s hash_marks_append hash_marks_spaces[OF ls])
  have ts: "tokens (hash_marks uw p s) = tokens (hash_marks uw None r)"
    unfolding hs using ls by (rule tokens_skip)
  show ?case
  proof (cases "r = []")
    case True
    then have "tokens s = []" by (simp add: tokens.simps[of s] r_def)
    with ts True show ?thesis by (simp add: tokens_Nil)
  next
    case False
    define tok where "tok = takeWhile (\<lambda>c. \<not> is_space c) r"
    define r2 where "r2 = dropWhile (\<lambda>c. \<not> is_space c) r"
    have r: "r = tok @ r2" by (simp add: tok_def r2_def)
    from False have "\<not> is_space (hd r)" unfolding r_def by (metis hd_dropWhile)
    with False have tn: "tok \<noteq> []" unfolding tok_def by (cases r) auto
    have tns: "\<forall>c\<in>set tok. \<not> is_space c" unfolding tok_def by (auto dest: set_takeWhileD)
    have r2h: "r2 = [] \<or> is_space (hd r2)" unfolding r2_def by (rule dropWhile_nonspace_head)
    have tks: "tokens s = tok # tokens r2"
      using False by (simp add: tokens.simps[of s] r_def[symmetric] tok_def r2_def Let_def)
    have hm: "hash_marks uw None r = hash_marks uw None tok @ hash_marks uw (Some (last tok)) r2"
      using tn by (simp add: r hash_marks_append)
    have a1: "hash_marks uw None tok \<noteq> []" using tn by (simp add: hash_marks_Nil_iff)
    have a2: "\<forall>c\<in>set (hash_marks uw None tok). \<not> is_space c"
      using hash_marks_set[of uw None tok] tns hash_not_space by auto
    have a3: "hash_marks uw (Some (last tok)) r2 = [] \<or> is_space (hd (hash_marks uw (Some (last tok)) r2))"
      using r2h by (rule hash_marks_space_head)
    have ih: "tokens (hash_marks uw (Some (last tok)) r2) = map (hash_marks uw None) (tokens r2)"
      using "1.IH"[OF r_def False, of "Some (last tok)"] r2h unfolding r2_def by blast
    have "tokens (hash_marks uw None r) = hash_marks uw None tok # map (hash_marks uw None) (tokens r2)"
      unfolding hm using tokens_first[OF a1 a2 a3] ih by simp
    with ts tks show ?thesis by simp
  qed
qed

lemma tokens_lstrip: "tokens (lstrip w) = tokens w"
proof -
  have "\<forall>c\<in>set (takeWhile is_space w). is_space c" by (auto dest: set_takeWhileD)
  from tokens_skip[OF this, of "dropWhile is_space w"] show ?thesis
    by (simp add: lstrip_def)
qed

lemma tokens_trailing: "\<forall>c\<in>set z. is_space c \<Longrightarrow> tokens (a @ z) = tokens a"
proof (induction a rule: tokens.induct)
  case (1 s)
  define r where "r = dropWhile is_space s"
  show ?case
  proof (cases "r = []")
    case True
    then have "\<forall>c\<in>set s. is_space c" unfolding r_def by (simp add: dropWhile_eq_Nil_conv)
    with "1.prems" have "dropWhile is_space (s @ z) = []" by (simp add: dropWhile_eq_Nil_conv)
    with True show ?thesis by (simp add: tokens.simps[of "s @ z"] tokens.simps[of s] r_def)
  next
    case False
    then have ex: "\<exists>c\<in>set s. \<not> is_space c" unfolding r_def by (auto simp: dropWhile_eq_Nil_conv)
    then obtain c where "c \<in> set s" "\<not> is_space c" by blast
    then have d: "dropWhile is_space (s @ z) = r @ z" unfolding r_def by (rule dropWhile_append1)
    have zh: "z = [] \<or> is_space (hd z)" using "1.prems" by (cases z) auto
    note td = take_drop_nonspace_append[OF zh, of r]
    have ih: "tokens (dropWhile (\<lambda>c. \<not> is_space c) r @ z) = tokens (dropWhile (\<lambda>c. \<not> is_space c) r)"
      using "1.IH"[OF r_def False] "1.prems" by simp
    have "tokens (s @ z) = takeWhile (\<lambda>c. \<not> is_space c) r # tokens (dropWhile (\<lambda>c. \<not> is_space c) r @ z)"
      using False d td by (simp add: tokens.simps[of "s @ z"])
    moreover have "tokens s = takeWhile (\<lambda>c. \<not> is_space c) r # tokens (dropWhile (\<lambda>c. \<not> is_space c) r)"
      using False by (simp add: tokens.simps[of s] r_def[symmetric] Let_def)
    ultimately show ?thesis using ih by simp
  qed
qed

lemma tokens_rstrip: "tokens (rstrip w) = tokens w"
proof -
  have w: "w = rstrip w @ rev (takeWhile is_space (rev w))"
    unfolding rstrip_def by (metis rev_append rev_rev_ident takeWhile_dropWhile_id)
  have "\<forall>c\<in>set (rev (takeWhile is_space (rev w))). is_space c"
    by (auto dest: set_takeWhileD)
  from tokens_trailing[OF this, of "rstrip w"] w show ?thesis by simp
qed

lemma tokens_strip: "tokens (strip w) = tokens w"
  by (simp add: strip_def tokens_rstrip tokens_lstrip)

lemma tokens_nonempty: "t \<in> set (tokens s) \<Longrightarrow> t \<noteq> []"
proof (induction s rule: tokens.induct)
  case (1 s)
  define r where "r = dropWhile is_space s"
  show ?case
  proof (cases "r = []")
    case True
    with "1.prems" show ?thesis by (simp add: tokens.simps[of s] r_def)
  next
    case False
    then have "\<not> is_space (hd r)" unfolding r_def by (metis hd_dropWhile)
    with False have tn: "takeWhile (\<lambda>c. \<not> is_space c) r \<noteq> []" by (cases r) auto
    from "1.prems" False have "t = takeWhile (\<lambda>c. \<not> is_space c) r \<or> t \<in> set (tokens (dropWhile (\<lambda>c. \<not> is_space c) r))"
      by (simp add: tokens.simps[of s] r_def[symmetric] Let_def)
    with tn "1.IH"[OF r_def False] show ?thesis by auto
  qed
qed

lemma token_letter_head:
  "t \<noteq> [] \<Longrightarrow> ascii_letter (hd t) \<Longrightarrow> take 2 (hash_marks uw None t) = [HASH, hd t]"
  by (cases t) (auto simp: starts_tag_def)

lemma token_other_head:
  "t \<noteq> [] \<Longrightarrow> \<not> ascii_letter (hd t) \<Longrightarrow> hd (hash_marks uw None t) = hd t"
  by (cases t) (auto simp: starts_tag_def)

lemma hashes_after_hash:
  "takeWhile (\<lambda>c. c = HASH) (hash_marks uw (Some HASH) t) = takeWhile (\<lambda>c. c = HASH) t"
  by (induction t) (auto simp: starts_tag_def hash_not_letter)

lemma token_hash_head:
  "t \<noteq> [] \<Longrightarrow> hd t = HASH \<Longrightarrow>
   takeWhile (\<lambda>c. c = HASH) (hash_marks uw None t) = takeWhile (\<lambda>c. c = HASH) t"
  using hashes_after_hash[of uw "tl t"]
  by (cases t) (auto simp: starts_tag_def hash_not_letter)

text \<open>
  Claim C4, as the code has it. For a table of word characters that holds no
  whitespace, the whitespace-delimited tokens of the normalized hashtags field are the
  tokens of the field without its decorative symbols, each rewritten on its own, and
  for each such token: if it begins with an ASCII letter, the result begins with one
  \<open>#\<close> followed by that letter; if it begins with \<open>#\<close>, the result begins with the
  same run of \<open>#\<close> (one, when there was one); if it begins with anything but an ASCII
  letter (a digit, say), the result begins with the same code point.
\<close>

theorem hashtag_tokens_normalized:
  assumes "\<And>c. is_space c \<Longrightarrow> \<not> py_word uw c"
  shows "tokens (clean_hashtags uw h)
           = map (prefix_hashtags uw None) (tokens (remove_class decor_symbols h)) \<and>
         (\<forall>t\<in>set (tokens (remove_class decor_symbols h)).
            t \<noteq> [] \<and>
            (ascii_letter (hd t) \<longrightarrow> take 2 (prefix_hashtags uw None t) = [HASH, hd t]) \<and>
            (hd t = HASH \<longrightarrow>
               takeWhile (\<lambda>c. c = HASH) (prefix_hashtags uw None t)
                 = takeWhile (\<lambda>c. c = HASH) t) \<and>
            (\<not> ascii_letter (hd t) \<longrightarrow> hd (prefix_hashtags uw None t) = hd t))"
proof -
  have m: "prefix_hashtags uw None = hash_marks uw None"
    by (rule ext) (rule prefix_hashtags_marks)
  have a: "tokens (clean_hashtags uw h)
           = map (hash_marks uw None) (tokens (remove_class decor_symbols h))"
  proof (cases "h = []")
    case True
    then show ?thesis by (simp add: clean_hashtags_def remove_class_def tokens_Nil)
  next
    case False
    then show ?thesis
      using tokens_hash_marks[OF assms, of None "remove_class decor_symbols h"]
      by (simp add: clean_hashtags_def prefix_hashtags_marks tokens_strip)
  qed
  show ?thesis
    unfolding m using a
    by (auto dest: tokens_nonempty intro: token_letter_head token_other_head token_hash_head)
qed

theorem hashtag_tokens_normalized_witness:
  "tokens (clean_hashtags (\<lambda>c. False) (asc '' ai  #ml 2024 ''))
     = [asc ''#ai'', asc ''#ml'', asc ''2024''] \<and>
   tokens (remove_class decor_symbols (asc '' ai  #ml 2024 ''))
     = [asc ''ai'', asc ''#ml'', asc ''2024''] \<and>
   take 2 (prefix_hashtags (\<lambda>c. False) None (asc ''ai'')) = [HASH, 97] \<and>
   takeWhile (\<lambda>c. c = HASH) (prefix_hashtags (\<lambda>c. False) None (asc ''#ml'')) = [HASH] \<and>
   hd (prefix_hashtags (\<lambda>c. False) None (asc ''2024'')) = 50"
proof -
  have t: "tokens (remove_class decor_symbols (asc '' ai  #ml 2024 ''))
     = [asc ''ai'', asc ''#ml'', asc ''2024'']"
    by (simp add: tokens.simps asc_def remove_class_def decor_symbols_def is_space_def)
  have p: "map (prefix_hashtags (\<lambda>c. False) None) [asc ''ai'', asc ''#ml'', asc ''2024'']
     = [asc ''#ai'', asc ''#ml'', asc ''2024'']"
    by (simp add: asc_def starts_tag_def tag_char_def ascii_letter_def ascii_digit_def
          py_word_def)
  have l: "ascii_letter (hd (asc ''ai''))" "hd (asc ''#ml'') = HASH"
    "\<not> ascii_letter (hd (asc ''2024''))" "hd (asc ''ai'') = 97" "hd (asc ''2024'') = 50"
    "takeWhile (\<lambda>c. c = HASH) (asc ''#ml'') = [HASH]"
    by (simp_all add: asc_def ascii_letter_def)
  show ?thesis
    using hashtag_tokens_normalized[of "\<lambda>c. False" "asc '' ai  #ml 2024 ''", OF no_word_table]
          t p l
    by simp
qed

text \<open>
  Claim C4, as the specification states it, fails: the field \<open>2024 ##ai\<close> is left as
  it is, so its first token does not begin with \<open>#\<close> and its second token, which
  began with \<open>#\<close>, begins with two.
\<close>

theorem digit_and_double_hash_tokens:
  "clean_hashtags (\<lambda>c. False) (asc ''2024 ##ai'') = asc ''2024 ##ai'' \<and>
   tokens (asc ''2024 ##ai'') = [asc ''2024'', asc ''##ai'']"
  by (simp add: tokens.simps clean_hashtags_def asc_def remove_class_def decor_symbols_def
        is_space_def strip_def lstrip_def rstrip_def starts_tag_def tag_char_def
        ascii_letter_def ascii_digit_def py_word_def)

section \<open>The parser on a labelled response\<close>

lemma rstrip_label:
  assumes "L \<noteq> []" "\<not> is_space (last L)"
  shows "rstrip (L @ b) = L @ rstrip b"
proof (cases "\<forall>c\<in>set b. is_space c")
  case True
  then have "dropWhile is_space (rev b @ rev L) = dropWhile is_space (rev L)"
    by (intro dropWhile_append2) simp
  also have "\<dots> = rev L" using assms by (cases "rev L") (auto simp: last_rev)
  finally have "rstrip (L @ b) = L" by (simp add: rstrip_def)
  moreover from True have "rstrip b = []" by (simp add: rstrip_def dropWhile_eq_Nil_conv)
  ultimately show ?thesis by simp
next
  case False
  then obtain c where "c \<in> set (rev b)" "\<not> is_space c" by auto
  then have "dropWhile is_space (rev b @ rev L) = dropWhile is_space (rev b) @ rev L"
    by (rule dropWhile_append1)
  then show ?thesis by (simp add: rstrip_def)
qed

lemma strip_label:
  assumes "L \<noteq> []" "\<not> is_space (hd L)" "\<not> is_space (last L)"
  shows "strip (L @ b) = L @ rstrip b"
proof -
  from assms(1,2) have "lstrip (L @ b) = L @ b" unfolding lstrip_def by (cases L) auto
  with rstrip_label[OF assms(1,3)] show ?thesis by (simp add: strip_def)
qed

lemma contains_append_left: "contains n a \<Longrightarrow> contains n (a @ b)"
proof (induction a)
  case Nil
  then show ?case by (cases b) auto
next
  case (Cons c cs)
  show ?case
  proof (cases "prefix n (c # cs)")
    case True
    then have "prefix n ((c # cs) @ b)" by (rule prefix_prefix)
    then show ?thesis by simp
  next
    case False
    with Cons show ?thesis by simp
  qed
qed

lemma remove_all_absent: "\<not> contains old s \<Longrightarrow> remove_all old s = s"
  by (induction s) auto

lemma remove_all_label:
  assumes "L \<noteq> []" "\<not> contains L b"
  shows "remove_all L (L @ b) = b"
proof -
  obtain c cs where l: "L @ b = c # cs" using assms(1) by (cases "L @ b") auto
  have "remove_all L (c # cs) = remove_all L (drop (length L) (c # cs))"
    using assms(1) l by (metis prefixI remove_all.simps(2))
  from this[folded l] show ?thesis using assms(2) by (simp add: remove_all_absent)
qed

lemma rstrip_decomp: "b = rstrip b @ rev (takeWhile is_space (rev b))"
  unfolding rstrip_def by (metis rev_append rev_rev_ident takeWhile_dropWhile_id)

lemma rstrip_drop_spaces: "\<forall>c\<in>set t. is_space c \<Longrightarrow> rstrip (x @ t) = rstrip x"
proof -
  assume "\<forall>c\<in>set t. is_space c"
  then have "dropWhile is_space (rev t @ rev x) = dropWhile is_space (rev x)"
    by (intro dropWhile_append2) simp
  then show ?thesis by (simp add: rstrip_def)
qed

lemma lstrip_rstrip_commute: "lstrip (rstrip b) = rstrip (lstrip b)"
proof (cases "\<forall>c\<in>set b. is_space c")
  case True
  then have e: "rstrip b = []" "lstrip b = []"
    by (simp_all add: rstrip_def lstrip_def dropWhile_eq_Nil_conv)
  have "lstrip [] = []" "rstrip [] = []" by (simp_all add: lstrip_def rstrip_def)
  then show ?thesis by (simp only: e)
next
  case False
  then obtain c where c: "c \<in> set b" "\<not> is_space c" by auto
  define t where "t = rev (takeWhile is_space (rev b))"
  have b: "b = rstrip b @ t" unfolding t_def by (rule rstrip_decomp)
  have ts: "\<forall>c\<in>set t. is_space c" unfolding t_def by (auto dest: set_takeWhileD)
  have "set b = set (rstrip b @ t)" by (rule arg_cong[OF b])
  then have "set b = set (rstrip b) \<union> set t" by (simp only: set_append)
  with c ts have "c \<in> set (rstrip b)" by auto
  then have "dropWhile is_space (rstrip b @ t) = dropWhile is_space (rstrip b) @ t"
    using c(2) by (rule dropWhile_append1)
  then have st: "lstrip (rstrip b @ t) = lstrip (rstrip b) @ t" by (simp add: lstrip_def)
  have "lstrip b = lstrip (rstrip b @ t)" by (rule arg_cong[OF b])
  also note st
  finally have "lstrip b = lstrip (rstrip b) @ t" .
  then have "rstrip (lstrip b) = rstrip (lstrip (rstrip b) @ t)" by (rule arg_cong)
  also have "\<dots> = rstrip (lstrip (rstrip b))" using ts by (rule rstrip_drop_spaces)
  also have "\<dots> = lstrip (rstrip b)"
  proof -
    have n: "rstrip b = [] \<or> \<not> is_space (last (rstrip b))"
    proof (cases "dropWhile is_space (rev b)")
      case Nil
      then show ?thesis by (simp add: rstrip_def)
    next
      case (Cons y ys)
      then have "\<not> is_space y" by (metis hd_dropWhile list.sel(1) list.distinct(1))
      with Cons show ?thesis by (simp add: rstrip_def)
    qed
    obtain l where l: "rstrip b = l @ lstrip (rstrip b)"
      unfolding lstrip_def by (metis takeWhile_dropWhile_id)
    have ne: "lstrip (rstrip b) \<noteq> []"
      using \<open>c \<in> set (rstrip b)\<close> c(2) by (auto simp: lstrip_def dropWhile_eq_Nil_conv)
    have "last (rstrip b) = last (l @ lstrip (rstrip b))" by (rule arg_cong[OF l])
    also have "\<dots> = last (lstrip (rstrip b))" using ne by (rule last_appendR)
    finally have "last (lstrip (rstrip b)) = last (rstrip b)" by (rule sym)
    moreover have "rstrip b \<noteq> []" using \<open>c \<in> set (rstrip b)\<close> by auto
    ultimately have "\<not> is_space (last (lstrip (rstrip b)))" using n by simp
    with ne have "dropWhile is_space (rev (lstrip (rstrip b))) = rev (lstrip (rstrip b))"
      by (cases "rev (lstrip (rstrip b))") (auto simp: last_rev)
    then show ?thesis by (simp add: rstrip_def[of "lstrip (rstrip b)"])
  qed
  finally show ?thesis by (rule sym)
qed

lemma strip_rstrip: "strip (rstrip b) = strip b"
  by (simp add: strip_def lstrip_rstrip_commute rstrip_rstrip)

lemma label_line_body:
  assumes "L \<noteq> []" "\<not> is_space (hd L)" "\<not> is_space (last L)" "\<not> contains L b"
  shows "strip (remove_all L (strip (L @ b))) = strip b"
proof -
  have "prefix (rstrip b) b" by (rule rstrip_prefix)
  then obtain z where "b = rstrip b @ z" by (auto simp: prefix_def)
  with assms(4) have "\<not> contains L (rstrip b)" by (metis contains_append_left)
  with assms show ?thesis by (simp add: strip_label remove_all_label strip_rstrip)
qed

lemma set_get_section: "set_section sec (get_section sec bd) bd = bd"
  by (cases sec) simp_all

lemma get_set_section: "get_section sec (set_section sec v bd) = v"
  by (cases sec) simp_all

lemma set_set_section: "set_section sec v (set_section sec w bd) = set_section sec v bd"
  by (cases sec) simp_all

lemma parse_line_unlabelled:
  "\<not> labelled u \<Longrightarrow>
   parse_line (cur, bd) u =
     (case cur of
        None \<Rightarrow> (None, bd)
      | Some sec \<Rightarrow>
          if strip u \<noteq> []
          then (Some sec, set_section sec
                  (if get_section sec bd \<noteq> [] then get_section sec bd @ [NL] @ strip u
                   else strip u) bd)
          else (Some sec, bd))"
  by (auto simp: parse_line_def labelled_def Let_def split: option.splits)

lemma parse_line_title:
  assumes "\<not> contains (asc ''TITLE:'') b"
  shows "parse_line (cur, bd) (asc ''TITLE:'' @ b) = (Some Title, set_section Title (strip b) bd)"
proof -
  have l: "asc ''TITLE:'' \<noteq> []" "\<not> is_space (hd (asc ''TITLE:''))"
    "\<not> is_space (last (asc ''TITLE:''))"
    by (simp_all add: asc_def is_space_def)
  have s: "strip (asc ''TITLE:'' @ b) = asc ''TITLE:'' @ rstrip b"
    using l by (rule strip_label)
  have st: "startswith (asc ''TITLE:'' @ rstrip b) (asc ''TITLE:'')"
    by (simp add: startswith_def)
  have bo: "strip (remove_all (asc ''TITLE:'') (asc ''TITLE:'' @ rstrip b)) = strip b"
    using label_line_body[OF l assms] by (simp only: s)
  show ?thesis by (simp add: parse_line_def Let_def s st bo)
qed

lemma parse_line_content:
  assumes "\<not> contains (asc ''CONTENT:'') b"
  shows "parse_line (cur, bd) (asc ''CONTENT:'' @ b)
           = (Some Content, set_section Content (strip b) bd)"
proof -
  have l: "asc ''CONTENT:'' \<noteq> []" "\<not> is_space (hd (asc ''CONTENT:''))"
    "\<not> is_space (last (asc ''CONTENT:''))"
    by (simp_all add: asc_def is_space_def)
  have s: "strip (asc ''CONTENT:'' @ b) = asc ''CONTENT:'' @ rstrip b"
    using l by (rule strip_label)
  have st: "startswith (asc ''CONTENT:'' @ rstrip b) (asc ''CONTENT:'')"
    "\<not> startswith (asc ''CONTENT:'' @ rstrip b) (asc ''TITLE:'')"
    by (simp_all add: startswith_def asc_def)
  have bo: "strip (remove_all (asc ''CONTENT:'') (asc ''CONTENT:'' @ rstrip b)) = strip b"
    using label_line_body[OF l assms] by (simp only: s)
  show ?thesis by (simp add: parse_line_def Let_def s st bo)
qed

lemma parse_line_hashtags:
  assumes "\<not> contains (asc ''HASHTAGS:'') b"
  shows "parse_line (cur, bd) (asc ''HASHTAGS:'' @ b)
           = (Some Hashtags, set_section Hashtags (strip b) bd)"
proof -
  have l: "asc ''HASHTAGS:'' \<noteq> []" "\<not> is_space (hd (asc ''HASHTAGS:''))"
    "\<not> is_space (last (asc ''HASHTAGS:''))"
    by (simp_all add: asc_def is_space_def)
  have s: "strip (asc ''HASHTAGS:'' @ b) = asc ''HASHTAGS:'' @ rstrip b"
    using l by (rule strip_label)
  have st: "startswith (asc ''HASHTAGS:'' @ rstrip b) (asc ''HASHTAGS:'')"
    "\<not> startswith (asc ''HASHTAGS:'' @ rstrip b) (asc ''TITLE:'')"
    "\<not> startswith (asc ''HASHTAGS:'' @ rstrip b) (asc ''CONTENT:'')"
    by (simp_all add: startswith_def asc_def)
  have bo: "strip (remove_all (asc ''HASHTAGS:'') (asc ''HASHTAGS:'' @ rstrip b)) = strip b"
    using label_line_body[OF l assms] by (simp only: s)
  show ?thesis by (simp add: parse_line_def Let_def s st bo)
qed

lemma parse_line_call_to_action:
  assumes "\<not> contains (asc ''CALL_TO_ACTION:'') b"
  shows "parse_line (cur, bd) (asc ''CALL_TO_ACTION:'' @ b)
           = (Some CallToAction, set_section CallToAction (strip b) bd)"
proof -
  have l: "asc ''CALL_TO_ACTION:'' \<noteq> []" "\<not> is_space (hd (asc ''CALL_TO_ACTION:''))"
    "\<not> is_space (last (asc ''CALL_TO_ACTION:''))"
    by (simp_all add: asc_def is_space_def)
  have s: "strip (asc ''CALL_TO_ACTION:'' @ b) = asc ''CALL_TO_ACTION:'' @ rstrip b"
    using l by (rule strip_label)
  have st: "startswith (asc ''CALL_TO_ACTION:'' @ rstrip b) (asc ''CALL_TO_ACTION:'')"
    "\<not> startswith (asc ''CALL_TO_ACTION:'' @ rstrip b) (asc ''TITLE:'')"
    "\<not> startswith (asc ''CALL_TO_ACTION:'' @ rstrip b) (asc ''CONTENT:'')"
    "\<not> startswith (asc ''CALL_TO_ACTION:'' @ rstrip b) (asc ''HASHTAGS:'')"
    by (simp_all add: startswith_def asc_def)
  have bo: "strip (remove_all (asc ''CALL_TO_ACTION:'') (asc ''CALL_TO_ACTION:'' @ rstrip b))
              = strip b"
    using label_line_body[OF l assms] by (simp only: s)
  show ?thesis by (simp add: parse_line_def Let_def s st bo)
qed

lemma join_nl_snoc: "join_nl (qs @ [l]) = (if qs = [] then l else join_nl qs @ [NL] @ l)"
  by (induction qs rule: join_nl.induct) auto

lemma join_nl_Nil_iff: "list_all (\<lambda>l. l \<noteq> []) qs \<Longrightarrow> join_nl qs = [] \<longleftrightarrow> qs = []"
  by (cases qs rule: join_nl.cases) auto

lemma parse_continuation:
  "list_all (\<lambda>l. \<not> labelled l) conts \<Longrightarrow> list_all (\<lambda>l. l \<noteq> []) qs \<Longrightarrow>
   get_section sec bd = join_nl qs \<Longrightarrow>
   foldl parse_line (Some sec, bd) conts
     = (Some sec, set_section sec (join_nl (qs @ filter (\<lambda>l. l \<noteq> []) (map strip conts))) bd)"
proof (induction conts arbitrary: bd qs)
  case Nil
  then show ?case using set_get_section[of sec bd] by simp
next
  case (Cons u us)
  from Cons.prems(1) have u: "\<not> labelled u" and us: "list_all (\<lambda>l. \<not> labelled l) us" by auto
  show ?case
  proof (cases "strip u = []")
    case True
    with u have "parse_line (Some sec, bd) u = (Some sec, bd)"
      by (simp add: parse_line_unlabelled)
    with Cons.IH[OF us Cons.prems(2,3)] True show ?thesis by simp
  next
    case False
    define bd' where "bd' = set_section sec (join_nl (qs @ [strip u])) bd"
    have "(if get_section sec bd \<noteq> [] then get_section sec bd @ [NL] @ strip u else strip u)
            = join_nl (qs @ [strip u])"
      using Cons.prems(2,3) by (simp add: join_nl_snoc join_nl_Nil_iff)
    with u False have p: "parse_line (Some sec, bd) u = (Some sec, bd')"
      by (simp add: parse_line_unlabelled bd'_def)
    have q: "list_all (\<lambda>l. l \<noteq> []) (qs @ [strip u])" using Cons.prems(2) False by simp
    have g: "get_section sec bd' = join_nl (qs @ [strip u])" by (simp add: bd'_def get_set_section)
    from Cons.IH[OF us q g] p False show ?thesis
      by (simp add: bd'_def set_set_section)
  qed
qed

lemma parse_preamble:
  "list_all (\<lambda>l. \<not> labelled l) pre \<Longrightarrow> foldl parse_line (None, bd) pre = (None, bd)"
  by (induction pre) (auto simp: parse_line_unlabelled)

lemma parse_section:
  assumes lab: "\<And>cur bd. parse_line (cur, bd) (L @ fst sec) = (Some S, set_section S (strip (fst sec)) bd)"
      and wf: "well_formed_section L sec"
  shows "foldl parse_line (cur, bd) (section_lines L sec)
           = (Some S, set_section S (section_body sec) bd)"
proof -
  define bd1 where "bd1 = set_section S (strip (fst sec)) bd"
  define qs where "qs = filter (\<lambda>l. l \<noteq> []) [strip (fst sec)]"
  have c: "list_all (\<lambda>l. \<not> labelled l) (snd sec)" using wf by (simp add: well_formed_section_def)
  have q: "list_all (\<lambda>l. l \<noteq> []) qs" by (simp add: qs_def)
  have g: "get_section S bd1 = join_nl qs" by (simp add: bd1_def qs_def get_set_section)
  have "foldl parse_line (cur, bd) (section_lines L sec) = foldl parse_line (Some S, bd1) (snd sec)"
    by (simp add: section_lines_def lab bd1_def)
  also have "\<dots> = (Some S, set_section S
       (join_nl (qs @ filter (\<lambda>l. l \<noteq> []) (map strip (snd sec)))) bd1)"
    using c q g by (rule parse_continuation)
  also have "qs @ filter (\<lambda>l. l \<noteq> []) (map strip (snd sec))
      = filter (\<lambda>l. l \<noteq> []) (map strip (fst sec # snd sec))"
    by (simp add: qs_def)
  finally show ?thesis by (simp add: section_body_def bd1_def set_set_section)
qed

lemma split_on_line: "d \<notin> set l \<Longrightarrow> split_on d l = [l]"
  by (induction l) auto

lemma split_on_append: "d \<notin> set l \<Longrightarrow> split_on d (l @ d # x) = l # split_on d x"
  by (induction l) auto

lemma split_join_nl:
  "lines \<noteq> [] \<Longrightarrow> list_all (\<lambda>l. NL \<notin> set l) lines \<Longrightarrow> split_on NL (join_nl lines) = lines"
proof (induction lines rule: join_nl.induct)
  case 1
  then show ?case by simp
next
  case (2 x)
  then show ?case by (simp add: split_on_line)
next
  case (3 x y ys)
  then have "split_on NL (join_nl (y # ys)) = y # ys" by simp
  with 3 show ?case by (simp add: split_on_append)
qed

lemma section_lines_no_newline:
  "NL \<notin> set L \<Longrightarrow> well_formed_section L sec \<Longrightarrow> list_all (\<lambda>l. NL \<notin> set l) (section_lines L sec)"
  by (simp add: well_formed_section_def section_lines_def)

lemma parse_lines_sections:
  assumes pre: "list_all (\<lambda>l. \<not> labelled l \<and> NL \<notin> set l) pre"
      and ts: "well_formed_section (asc ''TITLE:'') ts"
      and cs: "well_formed_section (asc ''CONTENT:'') cs"
      and hs: "case hsec of None \<Rightarrow> True | Some s \<Rightarrow> well_formed_section (asc ''HASHTAGS:'') s"
      and as: "case asec of None \<Rightarrow> True | Some s \<Rightarrow> well_formed_section (asc ''CALL_TO_ACTION:'') s"
  shows "parse_lines (join_nl (pre @ section_lines (asc ''TITLE:'') ts
              @ section_lines (asc ''CONTENT:'') cs
              @ (case hsec of None \<Rightarrow> [] | Some s \<Rightarrow> section_lines (asc ''HASHTAGS:'') s)
              @ (case asec of None \<Rightarrow> [] | Some s \<Rightarrow> section_lines (asc ''CALL_TO_ACTION:'') s)))
         = \<lparr>title = section_body ts, content = section_body cs,
            hashtags = (case hsec of None \<Rightarrow> [] | Some s \<Rightarrow> section_body s),
            call_to_action = (case asec of None \<Rightarrow> [] | Some s \<Rightarrow> section_body s),
            full_post = join_nl (pre @ section_lines (asc ''TITLE:'') ts
              @ section_lines (asc ''CONTENT:'') cs
              @ (case hsec of None \<Rightarrow> [] | Some s \<Rightarrow> section_lines (asc ''HASHTAGS:'') s)
              @ (case asec of None \<Rightarrow> [] | Some s \<Rightarrow> section_lines (asc ''CALL_TO_ACTION:'') s))\<rparr>"
proof -
  define hl where "hl = (case hsec of None \<Rightarrow> [] | Some s \<Rightarrow> section_lines (asc ''HASHTAGS:'') s)"
  define al where "al = (case asec of None \<Rightarrow> [] | Some s \<Rightarrow> section_lines (asc ''CALL_TO_ACTION:'') s)"
  define lines where "lines = pre @ section_lines (asc ''TITLE:'') ts
              @ section_lines (asc ''CONTENT:'') cs @ hl @ al"
  define bd0 where "bd0 = \<lparr>title = [], content = [], hashtags = [], call_to_action = [],
      full_post = join_nl lines\<rparr>"
  have nl: "NL \<notin> set (asc ''TITLE:'')" "NL \<notin> set (asc ''CONTENT:'')"
    "NL \<notin> set (asc ''HASHTAGS:'')" "NL \<notin> set (asc ''CALL_TO_ACTION:'')"
    by (simp_all add: asc_def)
  have n1: "list_all (\<lambda>l. NL \<notin> set l) pre" using pre by (simp add: list_all_iff)
  have n2: "list_all (\<lambda>l. NL \<notin> set l) hl"
    using hs nl(3) by (auto simp: hl_def section_lines_no_newline split: option.splits)
  have n3: "list_all (\<lambda>l. NL \<notin> set l) al"
    using as nl(4) by (auto simp: al_def section_lines_no_newline split: option.splits)
  have "list_all (\<lambda>l. NL \<notin> set l) lines"
    unfolding lines_def
    using n1 n2 n3 section_lines_no_newline[OF nl(1) ts] section_lines_no_newline[OF nl(2) cs]
    by simp
  moreover have "lines \<noteq> []" by (simp add: lines_def section_lines_def)
  ultimately have sp: "split_on NL (join_nl lines) = lines" by (rule split_join_nl[rotated -1])
  have p0: "foldl parse_line (None, bd0) pre = (None, bd0)"
    using pre by (intro parse_preamble) (simp add: list_all_iff)
  have p1: "foldl parse_line (None, bd0) (section_lines (asc ''TITLE:'') ts)
      = (Some Title, set_section Title (section_body ts) bd0)"
    using ts by (intro parse_section parse_line_title) (simp_all add: well_formed_section_def)
  define bd1 where "bd1 = set_section Title (section_body ts) bd0"
  have p2: "foldl parse_line (Some Title, bd1) (section_lines (asc ''CONTENT:'') cs)
      = (Some Content, set_section Content (section_body cs) bd1)"
    using cs by (intro parse_section parse_line_content) (simp_all add: well_formed_section_def)
  define bd2 where "bd2 = set_section Content (section_body cs) bd1"
  obtain c3 bd3 where p3: "foldl parse_line (Some Content, bd2) hl = (c3, bd3)"
    and b3: "bd3 = bd2\<lparr>hashtags := (case hsec of None \<Rightarrow> [] | Some s \<Rightarrow> section_body s)\<rparr>"
  proof (cases hsec)
    case None
    then have "foldl parse_line (Some Content, bd2) hl = (Some Content, bd2)" by (simp add: hl_def)
    moreover have "bd2 = bd2\<lparr>hashtags := []\<rparr>" by (simp add: bd2_def bd1_def bd0_def)
    ultimately show ?thesis using that None by simp
  next
    case (Some s)
    with hs have w: "well_formed_section (asc ''HASHTAGS:'') s" by simp
    have "foldl parse_line (Some Content, bd2) (section_lines (asc ''HASHTAGS:'') s)
      = (Some Hashtags, set_section Hashtags (section_body s) bd2)"
      using w by (intro parse_section parse_line_hashtags) (simp_all add: well_formed_section_def)
    then show ?thesis using that Some by (simp add: hl_def)
  qed
  obtain c4 bd4 where p4: "foldl parse_line (c3, bd3) al = (c4, bd4)"
    and b4: "bd4 = bd3\<lparr>call_to_action := (case asec of None \<Rightarrow> [] | Some s \<Rightarrow> section_body s)\<rparr>"
  proof (cases asec)
    case None
    then have "foldl parse_line (c3, bd3) al = (c3, bd3)" by (simp add: al_def)
    moreover have "bd3 = bd3\<lparr>call_to_action := []\<rparr>" by (simp add: b3 bd2_def bd1_def bd0_def)
    ultimately show ?thesis using that None by simp
  next
    case (Some s)
    with as have w: "well_formed_section (asc ''CALL_TO_ACTION:'') s" by simp
    have "foldl parse_line (c3, bd3) (section_lines (asc ''CALL_TO_ACTION:'') s)
      = (Some CallToAction, set_section CallToAction (section_body s) bd3)"
      using w by (intro parse_section parse_line_call_to_action)
                 (simp_all add: well_formed_section_def)
    then show ?thesis using that Some by (simp add: al_def)
  qed
  have "foldl parse_line (None, bd0) lines = (c4, bd4)"
    by (simp only: lines_def foldl_append p0 p1 bd1_def[symmetric] p2 bd2_def[symmetric] p3 p4)
  then have "parse_lines (join_nl lines) = bd4"
    by (simp add: parse_lines_def sp bd0_def)
  also have "bd4 = \<lparr>title = section_body ts, content = section_body cs,
            hashtags = (case hsec of None \<Rightarrow> [] | Some s \<Rightarrow> section_body s),
            call_to_action = (case asec of None \<Rightarrow> [] | Some s \<Rightarrow> section_body s),
            full_post = join_nl lines\<rparr>"
    by (simp add: b4 b3 bd2_def bd1_def bd0_def)
  finally show ?thesis by (simp add: lines_def hl_def al_def)
qed

text \<open>
  Claim C5, as the code has it. Take a response made of unlabelled lines, then a
  \<open>TITLE:\<close> section, a \<open>CONTENT:\<close> section, and optionally a \<open>HASHTAGS:\<close> and a
  \<open>CALL_TO_ACTION:\<close> section, in this order, where each section is its label, a body
  on the same line that does not contain the label, and any number of unlabelled lines.
  The parser returns the sanitized record of the section bodies: each field is
  \<open>clean_content\<close> applied to the stripped non-empty pieces of its section joined by
  newlines; the unlabelled lines before the first label are dropped, the raw text is
  kept, and a section that is left out gives the empty string. The parser is a total
  function: there is no error result.
\<close>

theorem parse_sectioned_response:
  assumes "list_all (\<lambda>l. \<not> labelled l \<and> NL \<notin> set l) pre"
      and "well_formed_section (asc ''TITLE:'') ts"
      and "well_formed_section (asc ''CONTENT:'') cs"
      and "case hsec of None \<Rightarrow> True | Some s \<Rightarrow> well_formed_section (asc ''HASHTAGS:'') s"
      and "case asec of None \<Rightarrow> True | Some s \<Rightarrow> well_formed_section (asc ''CALL_TO_ACTION:'') s"
  shows "parse_blog_response uw (join_nl (pre @ section_lines (asc ''TITLE:'') ts
              @ section_lines (asc ''CONTENT:'') cs
              @ (case hsec of None \<Rightarrow> [] | Some s \<Rightarrow> section_lines (asc ''HASHTAGS:'') s)
              @ (case asec of None \<Rightarrow> [] | Some s \<Rightarrow> section_lines (asc ''CALL_TO_ACTION:'') s)))
         = clean_content uw
           \<lparr>title = section_body ts, content = section_body cs,
            hashtags = (case hsec of None \<Rightarrow> [] | Some s \<Rightarrow> section_body s),
            call_to_action = (case asec of None \<Rightarrow> [] | Some s \<Rightarrow> section_body s),
            full_post = join_nl (pre @ section_lines (asc ''TITLE:'') ts
              @ section_lines (asc ''CONTENT:'') cs
              @ (case hsec of None \<Rightarrow> [] | Some s \<Rightarrow> section_lines (asc ''HASHTAGS:'') s)
              @ (case asec of None \<Rightarrow> [] | Some s \<Rightarrow> section_lines (asc ''CALL_TO_ACTION:'') s))\<rparr>
       \<and> (hsec = None \<longrightarrow>
            hashtags (parse_blog_response uw (join_nl (pre @ section_lines (asc ''TITLE:'') ts
              @ section_lines (asc ''CONTENT:'') cs
              @ (case hsec of None \<Rightarrow> [] | Some s \<Rightarrow> section_lines (asc ''HASHTAGS:'') s)
              @ (case asec of None \<Rightarrow> [] | Some s \<Rightarrow> section_lines (asc ''CALL_TO_ACTION:'') s))))
            = [])
       \<and> (asec = None \<longrightarrow>
            call_to_action (parse_blog_response uw (join_nl (pre @ section_lines (asc ''TITLE:'') ts
              @ section_lines (asc ''CONTENT:'') cs
              @ (case hsec of None \<Rightarrow> [] | Some s \<Rightarrow> section_lines (asc ''HASHTAGS:'') s)
              @ (case asec of None \<Rightarrow> [] | Some s \<Rightarrow> section_lines (asc ''CALL_TO_ACTION:'') s))))
            = [])"
  unfolding parse_blog_response_def parse_lines_sections[OF assms]
  by (simp add: clean_content_def clean_hashtags_def clean_cta_def)

theorem parse_sectioned_response_witness:
  "parse_blog_response (\<lambda>c. False)
     (asc ''Here is your post:\<newline>TITLE: Clean Code \<newline>\<newline>CONTENT: First line\<newline>  second line \<newline>\<newline>third\<newline>CALL_TO_ACTION: Share it'')
   = \<lparr>title = asc ''Clean Code'', content = asc ''First line\<newline>second line\<newline>third'',
      hashtags = [], call_to_action = asc ''Share it'',
      full_post = asc ''Here is your post:\<newline>TITLE: Clean Code \<newline>\<newline>CONTENT: First line\<newline>  second line \<newline>\<newline>third\<newline>CALL_TO_ACTION: Share it''\<rparr>"
proof -
  define pre where "pre = [asc ''Here is your post:'']"
  define ts where "ts = (asc '' Clean Code '', [[] :: ustr])"
  define cs where "cs = (asc '' First line'', [asc ''  second line '', [], asc ''third''])"
  define asec where "asec = Some (asc '' Share it'', [] :: ustr list)"
  have a1: "list_all (\<lambda>l. \<not> labelled l \<and> NL \<notin> set l) pre"
    by (simp add: pre_def labelled_def startswith_def strip_def lstrip_def rstrip_def asc_def
          is_space_def)
  have a2: "well_formed_section (asc ''TITLE:'') ts"
    by (simp add: ts_def well_formed_section_def labelled_def startswith_def strip_def
          lstrip_def rstrip_def asc_def is_space_def)
  have a3: "well_formed_section (asc ''CONTENT:'') cs"
    by (simp add: cs_def well_formed_section_def labelled_def startswith_def strip_def
          lstrip_def rstrip_def asc_def is_space_def)
  have a4: "case (None :: (ustr \<times> ustr list) option) of None \<Rightarrow> True
            | Some s \<Rightarrow> well_formed_section (asc ''HASHTAGS:'') s"
    by simp
  have a5: "case asec of None \<Rightarrow> True | Some s \<Rightarrow> well_formed_section (asc ''CALL_TO_ACTION:'') s"
    by (simp add: asec_def well_formed_section_def asc_def)
  have j: "join_nl (pre @ section_lines (asc ''TITLE:'') ts
              @ section_lines (asc ''CONTENT:'') cs
              @ (case (None :: (ustr \<times> ustr list) option) of None \<Rightarrow> []
                 | Some s \<Rightarrow> section_lines (asc ''HASHTAGS:'') s)
              @ (case asec of None \<Rightarrow> [] | Some s \<Rightarrow> section_lines (asc ''CALL_TO_ACTION:'') s))
      = asc ''Here is your post:\<newline>TITLE: Clean Code \<newline>\<newline>CONTENT: First line\<newline>  second line \<newline>\<newline>third\<newline>CALL_TO_ACTION: Share it''"
    by (simp add: pre_def ts_def cs_def asec_def section_lines_def asc_def)
  have b: "section_body ts = asc ''Clean Code''"
    "section_body cs = asc ''First line\<newline>second line\<newline>third''"
    "section_body (asc '' Share it'', []) = asc ''Share it''"
    by (simp_all add: ts_def cs_def section_body_def strip_def lstrip_def rstrip_def asc_def
          is_space_def)
  have c: "clean_title (asc ''Clean Code'') = asc ''Clean Code''"
    "clean_body (asc ''First line\<newline>second line\<newline>third'')
       = asc ''First line\<newline>second line\<newline>third''"
    "clean_cta (asc ''Share it'') = asc ''Share it''"
    by (simp_all add: clean_title_def clean_body_def clean_cta_def remove_class_def
          decor_symbols_def decor_symbols_content_def bullet_symbols_def strip_def lstrip_def
          rstrip_def asc_def is_space_def)
  from parse_sectioned_response[OF a1 a2 a3 a4 a5, of "\<lambda>c. False"]
  show ?thesis
    unfolding j by (simp add: b c asec_def clean_content_def clean_hashtags_def)
qed

text \<open>
  Claim C5, as the specification states it, fails: the fields are not exactly the
  section bodies, they are the bodies after sanitizing. The title body \<open>*Hi*\<close> is
  returned as \<open>Hi\<close> and the hashtags body \<open>ai\<close> as \<open>#ai\<close>.
\<close>

theorem parsed_fields_are_sanitized:
  "parse_blog_response (\<lambda>c. False)
     (asc ''TITLE: *Hi*\<newline>CONTENT: a\<newline>b\<newline>HASHTAGS: ai\<newline>CALL_TO_ACTION: go'')
   = \<lparr>title = asc ''Hi'', content = asc ''a\<newline>b'', hashtags = asc ''#ai'',
      call_to_action = asc ''go'',
      full_post = asc ''TITLE: *Hi*\<newline>CONTENT: a\<newline>b\<newline>HASHTAGS: ai\<newline>CALL_TO_ACTION: go''\<rparr> \<and>
   asc ''Hi'' \<noteq> asc ''*Hi*'' \<and> asc ''#ai'' \<noteq> asc ''ai''"
  by (simp add: parse_blog_response_def parse_lines_def parse_line_def startswith_def
        clean_content_def clean_title_def clean_body_def clean_hashtags_def clean_cta_def
        remove_class_def decor_symbols_def decor_symbols_content_def bullet_symbols_def
        strip_def lstrip_def rstrip_def asc_def is_space_def starts_tag_def tag_char_def
        ascii_letter_def ascii_digit_def py_word_def)

section \<open>The recipient validator\<close>

lemma star_lang_split:
  "w \<in> star_lang A \<Longrightarrow> w \<noteq> [] \<Longrightarrow>
   \<exists>u v. u \<noteq> [] \<and> u \<in> A \<and> v \<in> star_lang A \<and> w = u @ v"
proof (induction rule: star_lang.induct)
  case star_nil
  then show ?case by simp
next
  case (star_step u v)
  show ?case
  proof (cases "u = []")
    case True
    with star_step show ?thesis by simp
  next
    case False
    with star_step(1,2) show ?thesis by blast
  qed
qed

lemma nullable_lang: "nullable r \<longleftrightarrow> [] \<in> lang r"
  by (induction r) (auto intro: star_lang.star_nil)

lemma deriv_lang: "w \<in> lang (deriv c r) \<longleftrightarrow> c # w \<in> lang r"
proof (induction r arbitrary: w)
  case (Seq r s)
  show ?case
  proof
    assume "w \<in> lang (deriv c (Seq r s))"
    then consider (a) u v where "w = u @ v" "u \<in> lang (deriv c r)" "v \<in> lang s"
      | (b) "nullable r" "w \<in> lang (deriv c s)"
      by (auto split: if_splits)
    then show "c # w \<in> lang (Seq r s)"
    proof cases
      case a
      then have "c # u \<in> lang r" using Seq.IH(1) by simp
      with a have "(c # u) @ v \<in> lang (Seq r s)" by (simp del: append_Cons) blast
      with a show ?thesis by simp
    next
      case b
      then have "[] \<in> lang r" "c # w \<in> lang s" using Seq.IH(2) nullable_lang by auto
      then have "[] @ (c # w) \<in> lang (Seq r s)" by (simp del: append_Nil) blast
      then show ?thesis by simp
    qed
  next
    assume "c # w \<in> lang (Seq r s)"
    then obtain u v where uv: "c # w = u @ v" "u \<in> lang r" "v \<in> lang s" by auto
    show "w \<in> lang (deriv c (Seq r s))"
    proof (cases u)
      case Nil
      with uv have "nullable r" "w \<in> lang (deriv c s)" using Seq.IH(2) nullable_lang by auto
      then show ?thesis by simp
    next
      case (Cons d u')
      with uv have "d = c" "w = u' @ v" "u' \<in> lang (deriv c r)" using Seq.IH(1) by auto
      with uv(3) show ?thesis by auto
    qed
  qed
next
  case (Star r)
  show ?case
  proof
    assume "w \<in> lang (deriv c (Star r))"
    then obtain u v where "w = u @ v" "u \<in> lang (deriv c r)" "v \<in> star_lang (lang r)" by auto
    then have "(c # u) @ v \<in> star_lang (lang r)" using Star.IH by (intro star_lang.star_step) auto
    with \<open>w = u @ v\<close> show "c # w \<in> lang (Star r)" by simp
  next
    assume "c # w \<in> lang (Star r)"
    then have "c # w \<in> star_lang (lang r)" by simp
    from star_lang_split[OF this] obtain u v where
      uv: "u \<noteq> []" "u \<in> lang r" "v \<in> star_lang (lang r)" "c # w = u @ v" by auto
    then obtain u' where "u = c # u'" "w = u' @ v" by (cases u) auto
    with uv Star.IH show "w \<in> lang (deriv c (Star r))" by auto
  qed
qed auto

lemma fullmatch_lang: "fullmatch r s \<longleftrightarrow> s \<in> lang r"
  unfolding fullmatch_def
  by (induction s arbitrary: r) (auto simp: nullable_lang deriv_lang)

lemma star_class: "w \<in> star_lang {[c] | c. P c} \<longleftrightarrow> list_all P w"
proof
  assume "w \<in> star_lang {[c] | c. P c}"
  then show "list_all P w" by (induction rule: star_lang.induct) auto
next
  assume "list_all P w"
  then show "w \<in> star_lang {[c] | c. P c}"
  proof (induction w)
    case Nil
    show ?case by (rule star_lang.star_nil)
  next
    case (Cons c w)
    then have "[c] \<in> {[c] | c. P c}" "w \<in> star_lang {[c] | c. P c}" by auto
    then have "[c] @ w \<in> star_lang {[c] | c. P c}" by (rule star_lang.star_step)
    then show ?case by simp
  qed
qed

lemma lang_seq: "w \<in> lang (Seq r s) \<longleftrightarrow> (\<exists>u v. w = u @ v \<and> u \<in> lang r \<and> v \<in> lang s)"
  by auto

lemma lang_seq_class:
  "w \<in> lang (Seq (Class cs) r) \<longleftrightarrow> (\<exists>c v. w = c # v \<and> in_class cs c \<and> v \<in> lang r)"
proof
  assume "w \<in> lang (Seq (Class cs) r)"
  then obtain u v where "w = u @ v" "u \<in> lang (Class cs)" "v \<in> lang r"
    unfolding lang_seq by blast
  then show "\<exists>c v. w = c # v \<and> in_class cs c \<and> v \<in> lang r" by auto
next
  assume "\<exists>c v. w = c # v \<and> in_class cs c \<and> v \<in> lang r"
  then obtain c v where w: "w = c # v" "in_class cs c" "v \<in> lang r" by blast
  then have "[c] \<in> lang (Class cs)" by simp
  with w(3) have "[c] @ v \<in> lang (Seq (Class cs) r)" unfolding lang_seq by blast
  with w(1) show "w \<in> lang (Seq (Class cs) r)" by simp
qed

lemma lang_star_class: "w \<in> lang (Star (Class cs)) \<longleftrightarrow> list_all (in_class cs) w"
  by (simp add: star_class)

lemma lang_plus_class:
  "w \<in> lang (Plus (Class cs)) \<longleftrightarrow> w \<noteq> [] \<and> list_all (in_class cs) w"
  unfolding Plus_def lang_seq_class lang_star_class by (cases w) auto

lemma lang_atleast2_class:
  "w \<in> lang (AtLeast2 (Class cs)) \<longleftrightarrow> 2 \<le> length w \<and> list_all (in_class cs) w"
proof (cases w)
  case Nil
  then show ?thesis unfolding AtLeast2_def lang_seq_class by simp
next
  case (Cons c w')
  then show ?thesis
    unfolding AtLeast2_def lang_seq_class lang_star_class by (cases w') auto
qed

lemma alpha_class_letter: "in_class alpha_class c \<longleftrightarrow> ascii_letter c"
  by (auto simp: in_class_def alpha_class_def ascii_letter_def)

lemma single_class: "in_class [(k, k)] c \<longleftrightarrow> c = k"
  by (auto simp: in_class_def)

lemma lang_dollar: "e \<in> lang Dollar \<longleftrightarrow> e = [] \<or> e = [NL]"
  by (auto simp: Dollar_def single_class)

lemma lang_tld:
  "w \<in> lang (AtLeast2 (Class alpha_class)) \<longleftrightarrow> 2 \<le> length w \<and> list_all ascii_letter w"
  unfolding lang_atleast2_class by (simp add: list_all_iff alpha_class_letter)

lemma local_class_char: "in_class local_class c \<longleftrightarrow> spec_local_char c"
  by (auto simp: in_class_def local_class_def spec_local_char_def ascii_letter_def
        ascii_digit_def)

lemma domain_class_char: "in_class domain_class c \<longleftrightarrow> spec_domain_char c"
  by (auto simp: in_class_def domain_class_def spec_domain_char_def ascii_letter_def
        ascii_digit_def)

lemma lang_local:
  "w \<in> lang (Plus (Class local_class)) \<longleftrightarrow> w \<noteq> [] \<and> list_all spec_local_char w"
  unfolding lang_plus_class by (simp add: list_all_iff local_class_char)

lemma lang_domain:
  "w \<in> lang (Plus (Class domain_class)) \<longleftrightarrow> w \<noteq> [] \<and> list_all spec_domain_char w"
  unfolding lang_plus_class by (simp add: list_all_iff domain_class_char)

lemma lang_email_pattern:
  "s \<in> lang email_pattern \<longleftrightarrow>
     (\<exists>local dom tld e.
        s = local @ [64] @ dom @ [46] @ tld @ e \<and>
        local \<noteq> [] \<and> list_all spec_local_char local \<and>
        dom \<noteq> [] \<and> list_all spec_domain_char dom \<and>
        2 \<le> length tld \<and> list_all ascii_letter tld \<and> (e = [] \<or> e = [NL]))"
  (is "?L \<longleftrightarrow> ?R")
proof
  assume ?L
  then obtain l r1 where 1: "s = l @ r1" "l \<in> lang (Plus (Class local_class))"
    and r1: "r1 \<in> lang (Seq (Class [(64, 64)]) (Seq (Plus (Class domain_class))
           (Seq (Class [(46, 46)]) (Seq (AtLeast2 (Class alpha_class)) Dollar))))"
    unfolding email_pattern_def lang_seq[of s] by blast
  from r1 obtain a r2 where 2: "r1 = a # r2" "a = 64"
    and r2: "r2 \<in> lang (Seq (Plus (Class domain_class))
           (Seq (Class [(46, 46)]) (Seq (AtLeast2 (Class alpha_class)) Dollar)))"
    unfolding lang_seq_class[of r1] single_class by blast
  from r2 obtain d r3 where 3: "r2 = d @ r3" "d \<in> lang (Plus (Class domain_class))"
    and r3: "r3 \<in> lang (Seq (Class [(46, 46)]) (Seq (AtLeast2 (Class alpha_class)) Dollar))"
    unfolding lang_seq[of r2] by blast
  from r3 obtain b r4 where 4: "r3 = b # r4" "b = 46"
    and r4: "r4 \<in> lang (Seq (AtLeast2 (Class alpha_class)) Dollar)"
    unfolding lang_seq_class[of r3] single_class by blast
  from r4 obtain t e where 5: "r4 = t @ e" "t \<in> lang (AtLeast2 (Class alpha_class))"
    "e \<in> lang Dollar"
    unfolding lang_seq[of r4] by blast
  have "s = l @ [64] @ d @ [46] @ t @ e" using 1(1) 2 3(1) 4 5(1) by simp
  moreover have "l \<noteq> [] \<and> list_all spec_local_char l"
    using 1(2) unfolding lang_local .
  moreover have "d \<noteq> [] \<and> list_all spec_domain_char d"
    using 3(2) unfolding lang_domain .
  moreover have "2 \<le> length t \<and> list_all ascii_letter t"
    using 5(2) unfolding lang_tld .
  moreover have "e = [] \<or> e = [NL]" using 5(3) unfolding lang_dollar .
  ultimately show ?R by blast
next
  assume ?R
  then obtain l d t e where s: "s = l @ [64] @ d @ [46] @ t @ e"
    and l: "l \<noteq> [] \<and> list_all spec_local_char l"
    and d: "d \<noteq> [] \<and> list_all spec_domain_char d"
    and t: "2 \<le> length t \<and> list_all ascii_letter t"
    and e: "e = [] \<or> e = [NL]"
    by blast
  have "e \<in> lang Dollar" using e unfolding lang_dollar .
  moreover have "t \<in> lang (AtLeast2 (Class alpha_class))" using t unfolding lang_tld .
  ultimately have "t @ e \<in> lang (Seq (AtLeast2 (Class alpha_class)) Dollar)"
    unfolding lang_seq[of "t @ e"] by blast
  then have "46 # (t @ e) \<in> lang (Seq (Class [(46, 46)]) (Seq (AtLeast2 (Class alpha_class)) Dollar))"
    unfolding lang_seq_class[of "46 # (t @ e)"] single_class by blast
  moreover have "d \<in> lang (Plus (Class domain_class))" using d unfolding lang_domain .
  ultimately have "d @ 46 # (t @ e) \<in> lang (Seq (Plus (Class domain_class))
           (Seq (Class [(46, 46)]) (Seq (AtLeast2 (Class alpha_class)) Dollar)))"
    unfolding lang_seq[of "d @ 46 # (t @ e)"] by blast
  then have "64 # (d @ 46 # (t @ e)) \<in> lang (Seq (Class [(64, 64)]) (Seq (Plus (Class domain_class))
           (Seq (Class [(46, 46)]) (Seq (AtLeast2 (Class alpha_class)) Dollar))))"
    unfolding lang_seq_class[of "64 # (d @ 46 # (t @ e))"] single_class by blast
  moreover have "l \<in> lang (Plus (Class local_class))" using l unfolding lang_local .
  ultimately have "l @ 64 # (d @ 46 # (t @ e)) \<in> lang email_pattern"
    unfolding email_pattern_def lang_seq[of "l @ 64 # (d @ 46 # (t @ e))"] by blast
  then show ?L using s by simp
qed

lemma validate_email_format:
  "validate_email s \<longleftrightarrow>
     spec_email_format s \<or> (\<exists>t. s = t @ [NL] \<and> spec_email_format t)"
  (is "?L \<longleftrightarrow> ?R")
proof -
  have v: "validate_email s \<longleftrightarrow> s \<in> lang email_pattern"
    by (simp add: validate_email_def fullmatch_lang)
  show ?thesis
  proof
    assume ?L
    then obtain l d t e where s: "s = l @ [64] @ d @ [46] @ t @ e"
      and c: "l \<noteq> []" "list_all spec_local_char l" "d \<noteq> []"
        "list_all spec_domain_char d" "2 \<le> length t" "list_all ascii_letter t"
      and e: "e = [] \<or> e = [NL]"
      unfolding v lang_email_pattern by blast
    have f: "spec_email_format (l @ [64] @ d @ [46] @ t)"
      unfolding spec_email_format_def using c by blast
    from e show ?R
    proof
      assume "e = []"
      with s f show ?R by simp
    next
      assume "e = [NL]"
      with s have "s = (l @ [64] @ d @ [46] @ t) @ [NL]" by simp
      with f show ?R by blast
    qed
  next
    assume ?R
    then show ?L
    proof
      assume "spec_email_format s"
      then obtain l d t where "s = l @ [64] @ d @ [46] @ t @ []" "l \<noteq> []"
        "list_all spec_local_char l" "d \<noteq> []"
        "list_all spec_domain_char d" "2 \<le> length t" "list_all ascii_letter t"
        unfolding spec_email_format_def by auto
      then show ?L unfolding v lang_email_pattern by blast
    next
      assume "\<exists>t. s = t @ [NL] \<and> spec_email_format t"
      then obtain l d t where "s = l @ [64] @ d @ [46] @ t @ [NL]" "l \<noteq> []"
        "list_all spec_local_char l" "d \<noteq> []"
        "list_all spec_domain_char d" "2 \<le> length t" "list_all ascii_letter t"
        unfolding spec_email_format_def by auto
      then show ?L unfolding v lang_email_pattern by blast
    qed
  qed
qed

lemma spec_email_last_letter:
  assumes "spec_email_format s"
  shows "s \<noteq> [] \<and> ascii_letter (last s)"
proof -
  from assms obtain local dom tld where
    s: "s = local @ [64] @ dom @ [46] @ tld" and t: "2 \<le> length tld" "list_all ascii_letter tld"
    unfolding spec_email_format_def by blast
  from t(1) have ne: "tld \<noteq> []" by auto
  then have "last s = last tld" using s by simp
  moreover from ne t(2) have "ascii_letter (last tld)" by (simp add: list_all_iff)
  ultimately show ?thesis using s by simp
qed

text \<open>
  Claim C8. The four addresses of the specification are answered as it says. The
  format it describes ends with the letters of the top-level domain, but the pattern
  ends with \<open>$\<close>, which also matches before a final newline: \<open>a@b.co\<close> followed
  by a newline is accepted by \<open>validate_email\<close> and is not of the described format.
  By \<open>validate_email_format\<close> above this is the only difference: a text is accepted
  exactly when it is of the format, or is a text of the format followed by one newline.
\<close>

theorem validate_email_accepts_final_newline:
  "validate_email (asc ''a@b.co\<newline>'') \<and>
   \<not> spec_email_format (asc ''a@b.co\<newline>'') \<and>
   validate_email (asc ''valid@example.com'') \<and>
   validate_email (asc ''a.b+c@sub.domain.co'') \<and>
   \<not> validate_email (asc ''not-an-email'') \<and>
   \<not> validate_email (asc ''a@b'')"
proof -
  have "\<not> spec_email_format (asc ''a@b.co\<newline>'')"
  proof
    assume "spec_email_format (asc ''a@b.co\<newline>'')"
    then have "ascii_letter (last (asc ''a@b.co\<newline>''))"
      using spec_email_last_letter by blast
    then show False by (simp add: asc_def ascii_letter_def)
  qed
  moreover have "validate_email (asc ''a@b.co\<newline>'')"
    "validate_email (asc ''valid@example.com'')"
    "validate_email (asc ''a.b+c@sub.domain.co'')"
    "\<not> validate_email (asc ''not-an-email'')"
    "\<not> validate_email (asc ''a@b'')"
    by (simp_all add: validate_email_def fullmatch_def email_pattern_def Plus_def AtLeast2_def
          Dollar_def local_class_def domain_class_def alpha_class_def in_class_def asc_def)
  ultimately show ?thesis by simp
qed

section \<open>Batch dispatch\<close>

lemma dict_set_keys: "set (map fst (dict_set k v d)) = insert k (set (map fst d))"
  by (induction d) auto

lemma dict_set_distinct: "distinct (map fst d) \<Longrightarrow> distinct (map fst (dict_set k v d))"
proof (induction d)
  case Nil
  then show ?case by simp
next
  case (Cons kv d)
  then show ?case using dict_set_keys[of k v d] by (cases kv) auto
qed

lemma dict_set_values:
  "\<forall>p\<in>set d. snd p = f (fst p) \<Longrightarrow> \<forall>p\<in>set (dict_set k (f k) d). snd p = f (fst p)"
  by (induction d) auto

lemma dict_set_new: "k \<notin> set (map fst d) \<Longrightarrow> dict_set k v d = d @ [(k, v)]"
  by (induction d) auto

lemma fold_dict_set:
  assumes "distinct (map fst d)" "\<forall>p\<in>set d. snd p = f (fst p)"
  shows "distinct (map fst (foldl (\<lambda>results e. dict_set e (f e) results) d rs)) \<and>
         set (map fst (foldl (\<lambda>results e. dict_set e (f e) results) d rs))
           = set (map fst d) \<union> set rs \<and>
         (\<forall>p\<in>set (foldl (\<lambda>results e. dict_set e (f e) results) d rs). snd p = f (fst p))"
  using assms
proof (induction rs arbitrary: d)
  case Nil
  then show ?case by simp
next
  case (Cons r rs)
  have a: "distinct (map fst (dict_set r (f r) d))" using Cons.prems(1) by (rule dict_set_distinct)
  have b: "\<forall>p\<in>set (dict_set r (f r) d). snd p = f (fst p)"
    using Cons.prems(2) by (rule dict_set_values)
  from Cons.IH[OF a b] dict_set_keys[of r "f r" d] show ?case by auto
qed

lemma validate_recipients_props:
  "distinct (map fst (validate_recipients rs))"
  "set (map fst (validate_recipients rs)) = set rs"
  "\<forall>p\<in>set (validate_recipients rs). snd p = validate_email (fst p)"
  using fold_dict_set[of "[]" validate_email rs] by (simp_all add: validate_recipients_def)

lemma keys_where_true:
  "\<forall>p\<in>set xs. snd p = f (fst p) \<Longrightarrow>
   map fst (filter (\<lambda>(email, is_valid). is_valid) xs) = filter f (map fst xs)"
  by (induction xs) auto

lemma keys_where_false:
  "\<forall>p\<in>set xs. snd p = f (fst p) \<Longrightarrow>
   map fst (filter (\<lambda>(email, is_valid). \<not> is_valid) xs) = filter (\<lambda>e. \<not> f e) (map fst xs)"
  by (induction xs) auto

lemma valid_of_validation:
  "map fst (filter (\<lambda>(email, is_valid). is_valid) (validate_recipients rs))
     = filter validate_email (map fst (validate_recipients rs))"
  using validate_recipients_props(3) by (rule keys_where_true)

lemma invalid_of_validation:
  "map fst (filter (\<lambda>(email, is_valid). \<not> is_valid) (validate_recipients rs))
     = filter (\<lambda>e. \<not> validate_email e) (map fst (validate_recipients rs))"
  using validate_recipients_props(3) by (rule keys_where_false)

lemma valid_list_props:
  "distinct (filter validate_email (map fst (validate_recipients rs)))"
  "set (filter validate_email (map fst (validate_recipients rs))) = {e \<in> set rs. validate_email e}"
  "length (filter validate_email (map fst (validate_recipients rs)))
     = card {e \<in> set rs. validate_email e}"
proof -
  show d: "distinct (filter validate_email (map fst (validate_recipients rs)))"
    using validate_recipients_props(1)[of rs] by (rule distinct_filter)
  show s: "set (filter validate_email (map fst (validate_recipients rs)))
      = {e \<in> set rs. validate_email e}"
    using validate_recipients_props(2)[of rs] by auto
  show "length (filter validate_email (map fst (validate_recipients rs)))
     = card {e \<in> set rs. validate_email e}"
    using distinct_card[OF d] s by simp
qed

lemma invalid_list_props:
  "distinct (filter (\<lambda>e. \<not> validate_email e) (map fst (validate_recipients rs)))"
  "set (filter (\<lambda>e. \<not> validate_email e) (map fst (validate_recipients rs)))
     = {e \<in> set rs. \<not> validate_email e}"
  "length (filter (\<lambda>e. \<not> validate_email e) (map fst (validate_recipients rs)))
     = card {e \<in> set rs. \<not> validate_email e}"
proof -
  show d: "distinct (filter (\<lambda>e. \<not> validate_email e) (map fst (validate_recipients rs)))"
    using validate_recipients_props(1)[of rs] by (rule distinct_filter)
  show s: "set (filter (\<lambda>e. \<not> validate_email e) (map fst (validate_recipients rs)))
      = {e \<in> set rs. \<not> validate_email e}"
    using validate_recipients_props(2)[of rs] by auto
  show "length (filter (\<lambda>e. \<not> validate_email e) (map fst (validate_recipients rs)))
     = card {e \<in> set rs. \<not> validate_email e}"
    using distinct_card[OF d] s by simp
qed


lemma utf8_encodable_append: "utf8_encodable (a @ b) \<longleftrightarrow> utf8_encodable a \<and> utf8_encodable b"
  by (simp add: utf8_encodable_def)

lemma utf8_encodable_Nil: "utf8_encodable []"
  by (simp add: utf8_encodable_def)

lemma of_char_small: "of_char c < (256 :: nat)"
proof -
  have "of_char c mod 256 = (of_char c :: nat)" by (rule of_char_mod_256)
  then show ?thesis by (metis mod_less_divisor zero_less_numeral)
qed

lemma utf8_encodable_asc: "utf8_encodable (asc s)"
proof -
  have "(of_char c :: nat) < 0xD800" for c
    using of_char_small[of c] by linarith
  then show ?thesis by (simp add: utf8_encodable_def asc_def list_all_iff)
qed

lemma can_build_fields:
  "can_build post \<longleftrightarrow>
     utf8_encodable (title post) \<and> utf8_encodable (content post) \<and>
     utf8_encodable (hashtags post) \<and> utf8_encodable (call_to_action post) \<and>
     utf8_encodable (generated_at post) \<and> utf8_encodable (topic post) \<and>
     utf8_encodable (tone post)"
  unfolding can_build_def create_email_body_def create_html_body_def
  by (auto simp: utf8_encodable_append utf8_encodable_asc utf8_encodable_Nil)

lemma build_message_built:
  "can_build post \<Longrightarrow>
   build_message sender post (subject_prefix @ asc '': '' @ title post) r
     = Some (message_for sender post subject_prefix r)"
  by (simp add: can_build_def build_message_def mime_text_def message_for_def)

lemma build_message_failed: "\<not> can_build post \<Longrightarrow> build_message sender post subj r = None"
  by (auto simp: can_build_def build_message_def mime_text_def)

lemma send_to_multiple_built:
  assumes "can_build post"
  shows "distinct rs \<Longrightarrow>
   send_to_multiple_recipients sender smtp att post rs subject_prefix None
     = (att @ rs,
        map (\<lambda>i. (rs ! i, smtp (att @ take i rs) (message_for sender post subject_prefix (rs ! i))
                          (rs ! i))) [0..<length rs])"
proof (induction rs rule: rev_induct)
  case Nil
  show ?case by (simp add: send_to_multiple_recipients_def)
next
  case (snoc r rs)
  then have d: "distinct rs" and n: "r \<notin> set rs" by auto
  let ?res = "map (\<lambda>i. (rs ! i, smtp (att @ take i rs) (message_for sender post subject_prefix (rs ! i))
                          (rs ! i))) [0..<length rs]"
  have k: "map fst ?res = rs" by (simp add: comp_def map_nth)
  have "send_to_multiple_recipients sender smtp att post (rs @ [r]) subject_prefix None
      = (att @ rs @ [r],
         dict_set r (smtp (att @ rs) (message_for sender post subject_prefix r) r) ?res)"
    using snoc.IH[OF d]
    by (simp add: send_to_multiple_recipients_def build_message_built[OF assms])
  also have "dict_set r (smtp (att @ rs) (message_for sender post subject_prefix r) r) ?res
      = ?res @ [(r, smtp (att @ rs) (message_for sender post subject_prefix r) r)]"
    using n k by (intro dict_set_new) simp
  also have "?res @ [(r, smtp (att @ rs) (message_for sender post subject_prefix r) r)]
      = map (\<lambda>i. ((rs @ [r]) ! i,
                   smtp (att @ take i (rs @ [r]))
                     (message_for sender post subject_prefix ((rs @ [r]) ! i)) ((rs @ [r]) ! i)))
          [0..<length (rs @ [r])]"
    by (simp add: nth_append)
  finally show ?case .
qed

lemma send_to_multiple_failed:
  assumes "\<not> can_build post"
  shows "distinct rs \<Longrightarrow>
   send_to_multiple_recipients sender smtp att post rs subject_prefix None
     = (att, map (\<lambda>r. (r, False)) rs)"
proof (induction rs rule: rev_induct)
  case Nil
  show ?case by (simp add: send_to_multiple_recipients_def)
next
  case (snoc r rs)
  then have d: "distinct rs" and n: "r \<notin> set rs" by auto
  have "send_to_multiple_recipients sender smtp att post (rs @ [r]) subject_prefix None
      = (att, dict_set r False (map (\<lambda>r. (r, False)) rs))"
    using snoc.IH[OF d]
    by (simp add: send_to_multiple_recipients_def build_message_failed[OF assms])
  also have "dict_set r False (map (\<lambda>r. (r, False)) rs) = map (\<lambda>r. (r, False)) rs @ [(r, False)]"
    using n by (intro dict_set_new) (simp add: comp_def)
  finally show ?case by simp
qed

lemma send_batch_cases:
  fixes rs :: "ustr list"
  defines "V \<equiv> filter validate_email (map fst (validate_recipients rs))"
      and "I \<equiv> filter (\<lambda>e. \<not> validate_email e) (map fst (validate_recipients rs))"
  shows "send_batch_with_validation sender smtp att post rs subject_prefix skip =
     (if I \<noteq> [] \<and> \<not> skip
      then (\<lparr>validation = validate_recipients rs, sending = [],
             summary = \<lparr>total_recipients = length rs, valid_emails = length V,
                     invalid_emails = length I, emails_sent = 0, emails_failed = 0\<rparr>,
             error = Some I\<rparr>, att)
      else if V \<noteq> []
      then (\<lparr>validation = validate_recipients rs,
             sending = snd (send_to_multiple_recipients sender smtp att post V subject_prefix None),
             summary = \<lparr>total_recipients = length rs, valid_emails = length V,
                     invalid_emails = length I,
                     emails_sent = length (filter snd
                       (snd (send_to_multiple_recipients sender smtp att post V subject_prefix None))),
                     emails_failed =
                       length (snd (send_to_multiple_recipients sender smtp att post V subject_prefix None))
                       - length (filter snd
                       (snd (send_to_multiple_recipients sender smtp att post V subject_prefix None)))\<rparr>,
             error = None\<rparr>,
            fst (send_to_multiple_recipients sender smtp att post V subject_prefix None))
      else (\<lparr>validation = validate_recipients rs, sending = [],
             summary = \<lparr>total_recipients = length rs, valid_emails = length V,
                     invalid_emails = length I, emails_sent = 0, emails_failed = 0\<rparr>,
             error = None\<rparr>, att))"
proof -
  have e1: "map fst (filter (\<lambda>(email, is_valid). is_valid) (validate_recipients rs)) = V"
    unfolding V_def by (rule valid_of_validation)
  have e2: "map fst (filter (\<lambda>(email, is_valid). \<not> is_valid) (validate_recipients rs)) = I"
    unfolding I_def by (rule invalid_of_validation)
  obtain a r where ar: "send_to_multiple_recipients sender smtp att post V subject_prefix None = (a, r)"
    by (cases "send_to_multiple_recipients sender smtp att post V subject_prefix None")
  show ?thesis
    unfolding send_batch_with_validation_def Let_def e1 e2 ar
    by simp
qed

lemma batch_refused:
  assumes "\<not> skip" "\<exists>e\<in>set rs. \<not> validate_email e"
  shows "send_batch_with_validation sender smtp att post rs subject_prefix skip
     = (\<lparr>validation = validate_recipients rs, sending = [],
         summary = \<lparr>total_recipients = length rs,
                     valid_emails = card {e \<in> set rs. validate_email e},
                     invalid_emails = card {e \<in> set rs. \<not> validate_email e},
                     emails_sent = 0, emails_failed = 0\<rparr>,
         error = Some (filter (\<lambda>e. \<not> validate_email e) (map fst (validate_recipients rs)))\<rparr>,
        att)"
proof -
  have "set (filter (\<lambda>e. \<not> validate_email e) (map fst (validate_recipients rs))) \<noteq> {}"
    using assms(2) unfolding invalid_list_props(2) by blast
  then have "filter (\<lambda>e. \<not> validate_email e) (map fst (validate_recipients rs)) \<noteq> []"
    by (metis empty_set)
  with assms(1) show ?thesis
    by (simp only: send_batch_cases simp_thms if_True valid_list_props(3) invalid_list_props(3))
qed

lemma not_refused:
  assumes "skip \<or> (\<forall>e\<in>set rs. validate_email e)"
  shows "\<not> (filter (\<lambda>e. \<not> validate_email e) (map fst (validate_recipients rs)) \<noteq> [] \<and> \<not> skip)"
proof (cases skip)
  case True
  then show ?thesis by simp
next
  case False
  with assms have "{e \<in> set rs. \<not> validate_email e} = {}" by auto
  then have "set (filter (\<lambda>e. \<not> validate_email e) (map fst (validate_recipients rs))) = {}"
    unfolding invalid_list_props(2) .
  then show ?thesis by simp
qed

lemma batch_sent:
  assumes "skip \<or> (\<forall>e\<in>set rs. validate_email e)" "can_build post"
  shows "send_batch_with_validation sender smtp att post rs subject_prefix skip
     = (let sent_to = filter validate_email (map fst (validate_recipients rs));
            results = map (\<lambda>i. (sent_to ! i,
                                 smtp (att @ take i sent_to)
                                   (message_for sender post subject_prefix (sent_to ! i))
                                   (sent_to ! i)))
                        [0..<length sent_to]
        in (\<lparr>validation = validate_recipients rs, sending = results,
             summary = \<lparr>total_recipients = length rs,
                     valid_emails = card {e \<in> set rs. validate_email e},
                     invalid_emails = card {e \<in> set rs. \<not> validate_email e},
                     emails_sent = length (filter snd results),
                     emails_failed = length results - length (filter snd results)\<rparr>,
             error = None\<rparr>,
            att @ sent_to))"
proof -
  define V where "V = filter validate_email (map fst (validate_recipients rs))"
  define I where "I = filter (\<lambda>e. \<not> validate_email e) (map fst (validate_recipients rs))"
  define R where "R = map (\<lambda>i. (V ! i, smtp (att @ take i V)
                     (message_for sender post subject_prefix (V ! i)) (V ! i))) [0..<length V]"
  have c: "\<not> (I \<noteq> [] \<and> \<not> skip)" unfolding I_def using assms(1) by (rule not_refused)
  have d: "distinct V" unfolding V_def by (rule valid_list_props(1))
  have s: "send_to_multiple_recipients sender smtp att post V subject_prefix None = (att @ V, R)"
    unfolding R_def using assms(2) d by (rule send_to_multiple_built)
  have lv: "length V = card {e \<in> set rs. validate_email e}"
    unfolding V_def by (rule valid_list_props(3))
  have li: "length I = card {e \<in> set rs. \<not> validate_email e}"
    unfolding I_def by (rule invalid_list_props(3))
  have r0: "V = [] \<Longrightarrow> R = []" by (simp add: R_def)
  have "send_batch_with_validation sender smtp att post rs subject_prefix skip
     = (\<lparr>validation = validate_recipients rs, sending = R,
         summary = \<lparr>total_recipients = length rs,
                     valid_emails = card {e \<in> set rs. validate_email e},
                     invalid_emails = card {e \<in> set rs. \<not> validate_email e},
                     emails_sent = length (filter snd R),
                     emails_failed = length R - length (filter snd R)\<rparr>,
         error = None\<rparr>, att @ V)"
    unfolding send_batch_cases V_def[symmetric] I_def[symmetric] lv[symmetric] li[symmetric]
    using c r0 by (cases "V = []") (simp_all add: s)
  then show ?thesis unfolding Let_def V_def[symmetric] R_def[symmetric] .
qed

lemma batch_unsent:
  assumes "skip \<or> (\<forall>e\<in>set rs. validate_email e)" "\<not> can_build post"
  shows "send_batch_with_validation sender smtp att post rs subject_prefix skip
     = (\<lparr>validation = validate_recipients rs,
         sending = map (\<lambda>r. (r, False)) (filter validate_email (map fst (validate_recipients rs))),
         summary = \<lparr>total_recipients = length rs,
                     valid_emails = card {e \<in> set rs. validate_email e},
                     invalid_emails = card {e \<in> set rs. \<not> validate_email e},
                     emails_sent = 0,
                     emails_failed = card {e \<in> set rs. validate_email e}\<rparr>,
         error = None\<rparr>,
        att)"
proof -
  define V where "V = filter validate_email (map fst (validate_recipients rs))"
  define I where "I = filter (\<lambda>e. \<not> validate_email e) (map fst (validate_recipients rs))"
  have c: "\<not> (I \<noteq> [] \<and> \<not> skip)" unfolding I_def using assms(1) by (rule not_refused)
  have d: "distinct V" unfolding V_def by (rule valid_list_props(1))
  have s: "send_to_multiple_recipients sender smtp att post V subject_prefix None
      = (att, map (\<lambda>r. (r, False)) V)"
    using assms(2) d by (rule send_to_multiple_failed)
  have lv: "length V = card {e \<in> set rs. validate_email e}"
    unfolding V_def by (rule valid_list_props(3))
  have li: "length I = card {e \<in> set rs. \<not> validate_email e}"
    unfolding I_def by (rule invalid_list_props(3))
  have f: "filter snd (map (\<lambda>r. (r, False)) V) = []" by (induction V) auto
  have "send_batch_with_validation sender smtp att post rs subject_prefix skip
     = (\<lparr>validation = validate_recipients rs, sending = map (\<lambda>r. (r, False)) V,
         summary = \<lparr>total_recipients = length rs,
                     valid_emails = card {e \<in> set rs. validate_email e},
                     invalid_emails = card {e \<in> set rs. \<not> validate_email e},
                     emails_sent = 0,
                     emails_failed = card {e \<in> set rs. validate_email e}\<rparr>,
         error = None\<rparr>, att)"
    unfolding send_batch_cases V_def[symmetric] I_def[symmetric] lv[symmetric] li[symmetric]
    using c by (cases "V = []") (simp_all add: s f)
  then show ?thesis unfolding V_def[symmetric] .
qed

lemma good_bad_validation:
  "validate_email (asc ''good@x.com'')" "\<not> validate_email (asc ''bad'')"
  "asc ''bad'' \<noteq> asc ''good@x.com''" "asc ''good@x.com'' \<noteq> asc ''bad''"
  by (simp_all add: validate_email_def fullmatch_def email_pattern_def Plus_def AtLeast2_def
        Dollar_def local_class_def domain_class_def alpha_class_def in_class_def asc_def)

lemma sample_addresses:
  "validate_email (asc ''a@b.co'')" "validate_email (asc ''x@y.org'')"
  "asc ''a@b.co'' \<noteq> asc ''bad''" "asc ''bad'' \<noteq> asc ''a@b.co''"
  "asc ''a@b.co'' \<noteq> asc ''x@y.org''" "asc ''x@y.org'' \<noteq> asc ''a@b.co''"
  "asc ''bad'' \<noteq> asc ''x@y.org''" "asc ''x@y.org'' \<noteq> asc ''bad''"
  by (simp_all add: validate_email_def fullmatch_def email_pattern_def Plus_def AtLeast2_def
        Dollar_def local_class_def domain_class_def alpha_class_def in_class_def asc_def)

lemma sample_validation:
  "validate_recipients [asc ''a@b.co'', asc ''bad'', asc ''x@y.org'', asc ''a@b.co'']
     = [(asc ''a@b.co'', True), (asc ''bad'', False), (asc ''x@y.org'', True)]"
  by (simp add: validate_recipients_def sample_addresses good_bad_validation)

lemma card_valid_invalid:
  "card {e \<in> set rs. validate_email e} + card {e \<in> set rs. \<not> validate_email e} = card (set rs)"
proof -
  have "{e \<in> set rs. validate_email e} \<union> {e \<in> set rs. \<not> validate_email e} = set rs"
    "{e \<in> set rs. validate_email e} \<inter> {e \<in> set rs. \<not> validate_email e} = {}"
    by auto
  then show ?thesis
    using card_Un_disjoint[of "{e \<in> set rs. validate_email e}" "{e \<in> set rs. \<not> validate_email e}"]
    by simp
qed


lemma batch_example_skip:
  "can_build post \<Longrightarrow>
   send_batch_with_validation sender smtp [] post [asc ''good@x.com'', asc ''bad''] subject_prefix True
     = (\<lparr>validation = [(asc ''good@x.com'', True), (asc ''bad'', False)],
         sending = [(asc ''good@x.com'',
                     smtp [] (message_for sender post subject_prefix (asc ''good@x.com''))
                       (asc ''good@x.com''))],
         summary = \<lparr>total_recipients = 2, valid_emails = 1, invalid_emails = 1,
                     emails_sent =
                       (if smtp [] (message_for sender post subject_prefix (asc ''good@x.com''))
                             (asc ''good@x.com'') then 1 else 0),
                     emails_failed =
                       (if smtp [] (message_for sender post subject_prefix (asc ''good@x.com''))
                             (asc ''good@x.com'') then 0 else 1)\<rparr>,
         error = None\<rparr>,
        [asc ''good@x.com''])"
  by (simp add: send_batch_with_validation_def validate_recipients_def
        send_to_multiple_recipients_def good_bad_validation build_message_built)

lemma batch_example_skip_unbuilt:
  "\<not> can_build post \<Longrightarrow>
   send_batch_with_validation sender smtp [] post [asc ''good@x.com'', asc ''bad''] subject_prefix True
     = (\<lparr>validation = [(asc ''good@x.com'', True), (asc ''bad'', False)],
         sending = [(asc ''good@x.com'', False)],
         summary = \<lparr>total_recipients = 2, valid_emails = 1, invalid_emails = 1,
                     emails_sent = 0, emails_failed = 1\<rparr>,
         error = None\<rparr>,
        [])"
  by (simp add: send_batch_with_validation_def validate_recipients_def
        send_to_multiple_recipients_def good_bad_validation build_message_failed)

lemma batch_example_strict:
  "send_batch_with_validation sender smtp [] post [asc ''good@x.com'', asc ''bad''] subject_prefix False
     = (\<lparr>validation = [(asc ''good@x.com'', True), (asc ''bad'', False)],
         sending = [],
         summary = \<lparr>total_recipients = 2, valid_emails = 1, invalid_emails = 1,
                     emails_sent = 0, emails_failed = 0\<rparr>,
         error = Some [asc ''bad'']\<rparr>,
        [])"
  by (simp add: send_batch_with_validation_def validate_recipients_def good_bad_validation)

lemma count_list_distinct: "distinct xs \<Longrightarrow> x \<in> set xs \<Longrightarrow> count_list xs x = 1"
  by (induction xs) (auto simp: count_list_0_iff)

lemma count_list_distinct_le: "distinct xs \<Longrightarrow> count_list xs x \<le> 1"
  by (induction xs) (auto simp: count_list_0_iff)

lemma validation_lookup:
  "e \<in> set rs \<Longrightarrow> map_of (validate_recipients rs) e = Some (validate_email e)"
proof -
  assume "e \<in> set rs"
  then have "e \<in> set (map fst (validate_recipients rs))"
    by (simp only: validate_recipients_props(2))
  then obtain p where p: "p \<in> set (validate_recipients rs)" "fst p = e" by auto
  with validate_recipients_props(3)[of rs] have "snd p = validate_email e" by auto
  moreover have "p = (fst p, snd p)" by simp
  ultimately have "p = (e, validate_email e)" using p(2) by simp
  with p(1) have "(e, validate_email e) \<in> set (validate_recipients rs)" by simp
  with validate_recipients_props(1)[of rs] show ?thesis by (rule map_of_is_SomeI)
qed


lemma sample_posts:
  "can_build \<lparr>title = asc ''T'', content = asc ''C'', hashtags = [], call_to_action = [],
     full_post = [], generated_at = asc ''now'', topic = asc ''t'', tone = asc ''n'',
     post_length = asc ''short''\<rparr>"
  "\<not> can_build \<lparr>title = [0xD800], content = asc ''C'', hashtags = [], call_to_action = [],
     full_post = [], generated_at = asc ''now'', topic = asc ''t'', tone = asc ''n'',
     post_length = asc ''short''\<rparr>"
  by (simp_all add: can_build_fields utf8_encodable_asc utf8_encodable_Nil)
    (simp add: utf8_encodable_def)


lemma batch_shape:
  "validation (fst (send_batch_with_validation sender smtp att post rs subject_prefix skip))
     = validate_recipients rs"
  "map fst (sending (fst (send_batch_with_validation sender smtp att post rs subject_prefix skip)))
     = (if skip \<or> (\<forall>e\<in>set rs. validate_email e)
        then filter validate_email (map fst (validate_recipients rs)) else [])"
  "snd (send_batch_with_validation sender smtp att post rs subject_prefix skip)
     = att @ (if (skip \<or> (\<forall>e\<in>set rs. validate_email e)) \<and> can_build post
              then filter validate_email (map fst (validate_recipients rs)) else [])"
  "total_recipients (summary (fst (send_batch_with_validation sender smtp att post rs
       subject_prefix skip))) = length rs"
  "valid_emails (summary (fst (send_batch_with_validation sender smtp att post rs
       subject_prefix skip))) = card {e \<in> set rs. validate_email e}"
  "invalid_emails (summary (fst (send_batch_with_validation sender smtp att post rs
       subject_prefix skip))) = card {e \<in> set rs. \<not> validate_email e}"
proof -
  define V where "V = filter validate_email (map fst (validate_recipients rs))"
  have m: "map fst (map (\<lambda>i. (V ! i, smtp (att @ take i V)
              (message_for sender post subject_prefix (V ! i)) (V ! i))) [0..<length V]) = V"
    by (simp add: comp_def map_nth)
  have m2: "map fst (map (\<lambda>r. (r, False)) V) = V"
    by (simp add: comp_def)
  consider (sent) "skip \<or> (\<forall>e\<in>set rs. validate_email e)" "can_build post"
    | (unsent) "skip \<or> (\<forall>e\<in>set rs. validate_email e)" "\<not> can_build post"
    | (refused) "\<not> skip" "\<exists>e\<in>set rs. \<not> validate_email e"
    by blast
  then have "validation (fst (send_batch_with_validation sender smtp att post rs subject_prefix skip))
     = validate_recipients rs \<and>
   map fst (sending (fst (send_batch_with_validation sender smtp att post rs subject_prefix skip)))
     = (if skip \<or> (\<forall>e\<in>set rs. validate_email e) then V else []) \<and>
   snd (send_batch_with_validation sender smtp att post rs subject_prefix skip)
     = att @ (if (skip \<or> (\<forall>e\<in>set rs. validate_email e)) \<and> can_build post then V else []) \<and>
   total_recipients (summary (fst (send_batch_with_validation sender smtp att post rs
       subject_prefix skip))) = length rs \<and>
   valid_emails (summary (fst (send_batch_with_validation sender smtp att post rs
       subject_prefix skip))) = card {e \<in> set rs. validate_email e} \<and>
   invalid_emails (summary (fst (send_batch_with_validation sender smtp att post rs
       subject_prefix skip))) = card {e \<in> set rs. \<not> validate_email e}"
  proof cases
    case sent
    show ?thesis
      using m sent by (simp add: batch_sent[OF sent] Let_def V_def[symmetric])
  next
    case unsent
    show ?thesis
      using m2 unsent by (simp add: batch_unsent[OF unsent] V_def[symmetric])
  next
    case refused
    then have n: "\<not> (skip \<or> (\<forall>e\<in>set rs. validate_email e))" by blast
    show ?thesis
      unfolding batch_refused[OF refused] using refused by auto
  qed
  then show
  "validation (fst (send_batch_with_validation sender smtp att post rs subject_prefix skip))
     = validate_recipients rs"
  "map fst (sending (fst (send_batch_with_validation sender smtp att post rs subject_prefix skip)))
     = (if skip \<or> (\<forall>e\<in>set rs. validate_email e)
        then filter validate_email (map fst (validate_recipients rs)) else [])"
  "snd (send_batch_with_validation sender smtp att post rs subject_prefix skip)
     = att @ (if (skip \<or> (\<forall>e\<in>set rs. validate_email e)) \<and> can_build post
              then filter validate_email (map fst (validate_recipients rs)) else [])"
  "total_recipients (summary (fst (send_batch_with_validation sender smtp att post rs
       subject_prefix skip))) = length rs"
  "valid_emails (summary (fst (send_batch_with_validation sender smtp att post rs
       subject_prefix skip))) = card {e \<in> set rs. validate_email e}"
  "invalid_emails (summary (fst (send_batch_with_validation sender smtp att post rs
       subject_prefix skip))) = card {e \<in> set rs. \<not> validate_email e}"
    unfolding V_def by blast+
qed



end
